theory Spec2Isabelle
  imports Main "HOL-Library.Word"
begin

section \<open>Strings of the host language\<close>

text \<open>
  A JavaScript string is a sequence of 16-bit code units; \<open>length\<close> counts code units,
  as \<open>String.prototype.length\<close> and \<open>padEnd\<close> do.
\<close>

type_synonym jschar = "16 word"
type_synonym jsstring = "jschar list"

abbreviation DQUOTE :: jschar where "DQUOTE \<equiv> 0x22"
abbreviation COMMA :: jschar where "COMMA \<equiv> 0x2C"
abbreviation LF :: jschar where "LF \<equiv> 0x0A"
abbreviation CR :: jschar where "CR \<equiv> 0x0D"
abbreviation SPACE :: jschar where "SPACE \<equiv> 0x20"
abbreviation PIPE :: jschar where "PIPE \<equiv> 0x7C"
abbreviation DASH :: jschar where "DASH \<equiv> 0x2D"

text \<open>An ASCII literal as a JavaScript string.\<close>

definition js :: "string \<Rightarrow> jsstring" where
  "js s = map (\<lambda>c. of_nat (of_char c)) s"

text \<open>
  \<open>String.prototype.trim\<close> strips the code units of ECMAScript's WhiteSpace and
  LineTerminator productions from both ends: TAB, LF, VT, FF, CR, SP, NBSP, U+1680,
  U+2000..U+200A, U+2028, U+2029, U+202F, U+205F, U+3000 and U+FEFF.
\<close>

definition isWhiteSpace :: "jschar \<Rightarrow> bool" where
  "isWhiteSpace c \<longleftrightarrow>
     c = 0x09 \<or> c = 0x0A \<or> c = 0x0B \<or> c = 0x0C \<or> c = 0x0D \<or> c = 0x20 \<or> c = 0xA0 \<or>
     c = 0x1680 \<or> (0x2000 \<le> c \<and> c \<le> 0x200A) \<or> c = 0x2028 \<or> c = 0x2029 \<or>
     c = 0x202F \<or> c = 0x205F \<or> c = 0x3000 \<or> c = 0xFEFF"

definition trim :: "jsstring \<Rightarrow> jsstring" where
  "trim s = rev (dropWhile isWhiteSpace (rev (dropWhile isWhiteSpace s)))"

section \<open>The parser: \<open>parseCSV\<close>\<close>

text \<open>The local variables of \<open>parseCSV\<close>, under the names the source gives them.\<close>

record pstate =
  rows :: "jsstring list list"
  currentRow :: "jsstring list"
  currentCell :: jsstring
  insideQuotes :: bool
  i :: nat

text \<open>
  \<open>csvString[k]\<close>: the code unit at index \<open>k\<close>, \<open>undefined\<close> (here \<open>None\<close>) past the end.
\<close>

definition charAt :: "jsstring \<Rightarrow> nat \<Rightarrow> jschar option" where
  "charAt s k = (if k < length s then Some (s ! k) else None)"

text \<open>
  \<open>if (currentRow.some((cell) => cell.length > 0)) rows.push(currentRow)\<close>, as it stands
  at each of the four places where a row is closed.
\<close>

definition pushRow :: "jsstring list list \<Rightarrow> jsstring list \<Rightarrow> jsstring list list" where
  "pushRow rs row = (if list_ex (\<lambda>cell. length cell > 0) row then rs @ [row] else rs)"

text \<open>
  One turn of the \<open>while\<close> loop, for \<open>char = csvString[i]\<close> and \<open>nextChar = csvString[i + 1]\<close>;
  the branches are in the order of the source.
\<close>

definition parse_step :: "jschar \<Rightarrow> jschar option \<Rightarrow> pstate \<Rightarrow> pstate" where
  "parse_step char nextChar st =
    (if char = DQUOTE then
       (if insideQuotes st \<and> nextChar = Some DQUOTE
        then st\<lparr>currentCell := currentCell st @ [DQUOTE], i := i st + 2\<rparr>
        else st\<lparr>insideQuotes := \<not> insideQuotes st, i := i st + 1\<rparr>)
     else if char = COMMA \<and> \<not> insideQuotes st then
       st\<lparr>currentRow := currentRow st @ [trim (currentCell st)], currentCell := [],
          i := i st + 1\<rparr>
     else if char = LF \<and> \<not> insideQuotes st then
       st\<lparr>rows := pushRow (rows st) (currentRow st @ [trim (currentCell st)]),
          currentRow := [], currentCell := [], i := i st + 1\<rparr>
     else if char = CR \<and> nextChar = Some LF \<and> \<not> insideQuotes st then
       st\<lparr>rows := pushRow (rows st) (currentRow st @ [trim (currentCell st)]),
          currentRow := [], currentCell := [], i := i st + 2\<rparr>
     else if char = CR \<and> \<not> insideQuotes st then
       st\<lparr>rows := pushRow (rows st) (currentRow st @ [trim (currentCell st)]),
          currentRow := [], currentCell := [], i := i st + 1\<rparr>
     else st\<lparr>currentCell := currentCell st @ [char], i := i st + 1\<rparr>)"

function parse_loop :: "jsstring \<Rightarrow> pstate \<Rightarrow> pstate" where
  "parse_loop csvString st =
    (if i st < length csvString
     then parse_loop csvString
            (parse_step (csvString ! i st) (charAt csvString (i st + 1)) st)
     else st)"
  by pat_completeness auto
termination
  by (relation "measure (\<lambda>(csvString, st). length csvString - i st)")
     (auto simp: parse_step_def)

declare parse_loop.simps [simp del]

definition initial :: pstate where
  "initial = \<lparr>rows = [], currentRow = [], currentCell = [], insideQuotes = False, i = 0\<rparr>"

text \<open>The statements after the loop: the last cell and row.\<close>

definition finish :: "pstate \<Rightarrow> jsstring list list" where
  "finish st =
    (if length (currentCell st) > 0 \<or> length (currentRow st) > 0
     then pushRow (rows st) (currentRow st @ [trim (currentCell st)])
     else rows st)"

definition parseCSV :: "jsstring \<Rightarrow> jsstring list list" where
  "parseCSV csvString = finish (parse_loop csvString initial)"

section \<open>The formatter: \<open>convertToMarkdownTable\<close>\<close>

text \<open>
  \<open>Math.max(...xs)\<close>. With no argument JavaScript gives \<open>-Infinity\<close>; the formatter
  returns before this call when the table has no row, so the first equation is never used by it.
\<close>

fun mathMax :: "nat list \<Rightarrow> nat" where
  "mathMax [] = 0"
| "mathMax (x # xs) = fold max xs x"

definition columnCount :: "jsstring list list \<Rightarrow> nat" where
  "columnCount tbl = mathMax (map length tbl)"

text \<open>\<open>while (normalizedRow.length < columnCount) normalizedRow.push('')\<close>\<close>

function normalizeRow :: "nat \<Rightarrow> jsstring list \<Rightarrow> jsstring list" where
  "normalizeRow n normalizedRow =
    (if length normalizedRow < n then normalizeRow n (normalizedRow @ [[]])
     else normalizedRow)"
  by pat_completeness auto
termination
  by (relation "measure (\<lambda>(n, normalizedRow). n - length normalizedRow)") auto

declare normalizeRow.simps [simp del]

definition normalizedRows :: "jsstring list list \<Rightarrow> jsstring list list" where
  "normalizedRows tbl = map (\<lambda>row. normalizeRow (columnCount tbl) row) tbl"

text \<open>
  \<open>row.forEach((cell, index) => { columnWidths[index] = Math.max(columnWidths[index],
  cell.length) })\<close>. Every normalized row has \<open>columnCount\<close> cells (lemma
  \<open>length_normalizeRow\<close> below), so \<open>index\<close> never leaves the array.
\<close>

definition measureRow :: "nat list \<Rightarrow> jsstring list \<Rightarrow> nat list" where
  "measureRow columnWidths row =
     fold (\<lambda>(cell, index) ws. ws[index := max (ws ! index) (length cell)])
       (zip row [0..<length row]) columnWidths"

definition measuredWidths :: "jsstring list list \<Rightarrow> nat list" where
  "measuredWidths tbl =
     fold (\<lambda>row ws. measureRow ws row) (normalizedRows tbl) (replicate (columnCount tbl) 0)"

text \<open>\<open>columnWidths.forEach((width, index) => { columnWidths[index] = Math.max(width, 3) })\<close>\<close>

definition columnWidths :: "jsstring list list \<Rightarrow> nat list" where
  "columnWidths tbl =
     (let ws = measuredWidths tbl
      in fold (\<lambda>index ws. ws[index := max (ws ! index) 3]) [0..<length ws] ws)"

text \<open>\<open>String.prototype.padEnd\<close> with the default filler, a space.\<close>

definition padEnd :: "jsstring \<Rightarrow> nat \<Rightarrow> jsstring" where
  "padEnd s n = (if n \<le> length s then s else s @ replicate (n - length s) SPACE)"

text \<open>\<open>Array.prototype.join\<close>\<close>

fun join :: "jsstring \<Rightarrow> jsstring list \<Rightarrow> jsstring" where
  "join sep [] = []"
| "join sep [x] = x"
| "join sep (x # y # ys) = x @ sep @ join sep (y # ys)"

text \<open>
  The template \<open>| ${row.map((cell, index) => cell.padEnd(columnWidths[index])).join(' | ')} |\<close>
  of the header row and of each data row. It is applied to normalized rows only, which have as
  many cells as there are widths, so \<open>columnWidths[index]\<close> is always defined.
\<close>

definition formatRow :: "nat list \<Rightarrow> jsstring list \<Rightarrow> jsstring" where
  "formatRow ws row =
     js ''| '' @
     join (js '' | '') (map (\<lambda>(cell, index). padEnd cell (ws ! index)) (zip row [0..<length row])) @
     js '' |''"

definition headerRow :: "jsstring list list \<Rightarrow> jsstring" where
  "headerRow tbl = formatRow (columnWidths tbl) (normalizedRows tbl ! 0)"

definition separatorRow :: "jsstring list list \<Rightarrow> jsstring" where
  "separatorRow tbl =
     js ''| '' @ join (js '' | '') (map (\<lambda>width. replicate width DASH) (columnWidths tbl)) @
     js '' |''"

text \<open>\<open>for (let i = 1; i < normalizedRows.length; i += 1)\<close>\<close>

definition dataRows :: "jsstring list list \<Rightarrow> jsstring list" where
  "dataRows tbl =
     map (\<lambda>k. formatRow (columnWidths tbl) (normalizedRows tbl ! k))
       [1..<length (normalizedRows tbl)]"

definition markdownRows :: "jsstring list list \<Rightarrow> jsstring list" where
  "markdownRows tbl = headerRow tbl # separatorRow tbl # dataRows tbl"

definition convertToMarkdownTable :: "jsstring list list \<Rightarrow> jsstring" where
  "convertToMarkdownTable tbl =
     (if length tbl = 0 then [] else join [LF] (markdownRows tbl))"

section \<open>The driver and the entry point\<close>

definition csvToMarkdown :: "jsstring \<Rightarrow> jsstring" where
  "csvToMarkdown csvString = convertToMarkdownTable (parseCSV csvString)"

text \<open>
  The two errors thrown by \<open>convertCSVToMarkdown\<close> and handed to \<open>core.setFailed\<close>:
  \<open>CSV input is empty or contains only whitespace\<close> and
  \<open>Failed to generate markdown table - output is empty\<close>.
\<close>

datatype failure = InputEmpty | OutputEmpty

text \<open>
  \<open>convertCSVToMarkdown\<close> as a function of the value of \<open>core.getInput('csvinput')\<close>:
  the failure reported, or the string given to \<open>core.setOutput\<close>. Logging and timing do not
  touch the result.
\<close>

definition convertCSVToMarkdown :: "jsstring \<Rightarrow> failure + jsstring" where
  "convertCSVToMarkdown csvinput =
     (if csvinput = [] \<or> trim csvinput = [] then Inl InputEmpty
      else (let markdownTable = csvToMarkdown csvinput
            in if markdownTable = [] \<or> length (trim markdownTable) = 0 then Inl OutputEmpty
               else Inr markdownTable))"

section \<open>Measures used in the statements\<close>

text \<open>The number of double-quote code units in a string, in a table and in a parser state.\<close>

definition quoteCount :: "jsstring \<Rightarrow> nat" where
  "quoteCount s = length (filter (\<lambda>c. c = DQUOTE) s)"

definition tableQuotes :: "jsstring list list \<Rightarrow> nat" where
  "tableQuotes tbl = sum_list (map quoteCount (concat tbl))"

definition stateQuotes :: "pstate \<Rightarrow> nat" where
  "stateQuotes st = tableQuotes (rows st) + sum_list (map quoteCount (currentRow st)) +
     quoteCount (currentCell st)"

text \<open>The cells a parser state holds in finished form: those of the rows kept so far and
  those of the row being built.\<close>

definition stateCells :: "pstate \<Rightarrow> jsstring list" where
  "stateCells st = concat (rows st) @ currentRow st"

text \<open>Every finished cell of the state is a fixed point of \<open>trim\<close>.\<close>

definition trimmedState :: "pstate \<Rightarrow> bool" where
  "trimmedState st \<longleftrightarrow> (\<forall>c\<in>set (stateCells st). trim c = c)"

text \<open>A line of commas and whitespace only.\<close>

definition blankLine :: "jsstring \<Rightarrow> bool" where
  "blankLine l \<longleftrightarrow> (\<forall>c\<in>set l. c = COMMA \<or> isWhiteSpace c)"

text \<open>Outside a quoted field, with only empty cells in the row being built and only whitespace
  in the cell buffer.\<close>

definition blankBuffers :: "pstate \<Rightarrow> bool" where
  "blankBuffers st \<longleftrightarrow>
     \<not> insideQuotes st \<and> (\<forall>cell\<in>set (currentRow st). cell = []) \<and>
     (\<forall>c\<in>set (currentCell st). isWhiteSpace c)"

text \<open>Every row has a cell that is not empty.\<close>

definition keptRows :: "jsstring list list \<Rightarrow> bool" where
  "keptRows rs \<longleftrightarrow> (\<forall>row\<in>set rs. \<exists>cell\<in>set row. cell \<noteq> [])"



text \<open>A cell value without comma, double-quote, line-feed or carriage-return.\<close>

definition plainText :: "jsstring \<Rightarrow> bool" where
  "plainText v \<longleftrightarrow> (\<forall>c\<in>set v. c \<noteq> COMMA \<and> c \<noteq> DQUOTE \<and> c \<noteq> LF \<and> c \<noteq> CR)"

section \<open>Basic facts\<close>

subsection \<open>Whitespace and \<open>trim\<close>\<close>

lemma isWhiteSpace_simps [simp]:
  "isWhiteSpace LF" "isWhiteSpace CR" "isWhiteSpace SPACE"
  "\<not> isWhiteSpace DQUOTE" "\<not> isWhiteSpace COMMA" "\<not> isWhiteSpace PIPE" "\<not> isWhiteSpace DASH"
  by (simp_all add: isWhiteSpace_def)

lemma trim_Nil [simp]: "trim [] = []"
  by (simp add: trim_def)

lemma all_dropWhile_iff: "(\<forall>x\<in>set (dropWhile P s). P x) \<longleftrightarrow> (\<forall>x\<in>set s. P x)"
  by (induction s) auto

lemma trim_eq_Nil_iff: "trim s = [] \<longleftrightarrow> (\<forall>c\<in>set s. isWhiteSpace c)"
  by (simp add: trim_def all_dropWhile_iff)

lemma dropWhile_rev_dropWhile:
  "dropWhile P (rev (dropWhile P (rev (dropWhile P s)))) = rev (dropWhile P (rev (dropWhile P s)))"
proof (cases "dropWhile P s")
  case Nil
  then show ?thesis by (simp only: rev.simps dropWhile.simps)
next
  case (Cons a t)
  then have na: "\<not> P a" by (metis hd_dropWhile list.sel(1) list.distinct(1))
  obtain u where u: "dropWhile P (rev (a # t)) = u @ [a]"
  proof -
    have "dropWhile P (rev t @ [a]) = dropWhile P (rev t) @ [a] \<or> dropWhile P (rev t @ [a]) = [a]"
      using na by (simp add: dropWhile_append)
    then show ?thesis using that by (metis append_Nil rev.simps(2))
  qed
  show ?thesis using Cons u na by simp
qed

lemma trim_idem [simp]: "trim (trim s) = trim s"
  by (simp add: trim_def dropWhile_rev_dropWhile)

lemma filter_dropWhile_le: "length (filter Q (dropWhile P s)) \<le> length (filter Q s)"
  by (induction s) auto

lemma filter_trim_le: "length (filter Q (trim s)) \<le> length (filter Q s)"
proof -
  have "length (filter Q (trim s)) = length (filter Q (dropWhile isWhiteSpace (rev (dropWhile isWhiteSpace s))))"
    by (simp add: trim_def rev_filter [symmetric])
  also have "\<dots> \<le> length (filter Q (rev (dropWhile isWhiteSpace s)))"
    by (rule filter_dropWhile_le)
  also have "\<dots> = length (filter Q (dropWhile isWhiteSpace s))"
    by (simp add: rev_filter [symmetric])
  also have "\<dots> \<le> length (filter Q s)"
    by (rule filter_dropWhile_le)
  finally show ?thesis .
qed

subsection \<open>The scan\<close>

text \<open>A property kept by every turn of the loop holds when the loop ends.\<close>

lemma parse_loop_invariant:
  assumes "P st"
    and "\<And>st. P st \<Longrightarrow> i st < length s \<Longrightarrow>
           P (parse_step (s ! i st) (charAt s (i st + 1)) st)"
  shows "P (parse_loop s st)"
  using assms
proof (induction s st rule: parse_loop.induct)
  case (1 s st)
  show ?case
  proof (cases "i st < length s")
    case True
    have "P (parse_step (s ! i st) (charAt s (i st + 1)) st)"
      using "1.prems"(1) True by (rule "1.prems"(2))
    with True have "P (parse_loop s (parse_step (s ! i st) (charAt s (i st + 1)) st))"
      using "1.prems"(2) by (intro "1.IH")
    with True show ?thesis by (simp add: parse_loop.simps [of s st])
  next
    case False
    then show ?thesis using "1.prems"(1) by (simp add: parse_loop.simps [of s st])
  qed
qed

lemma parse_loop_step:
  "i st < length s \<Longrightarrow>
     parse_loop s st = parse_loop s (parse_step (s ! i st) (charAt s (i st + 1)) st)"
  by (simp add: parse_loop.simps [of s st])

lemma parse_loop_done: "length s \<le> i st \<Longrightarrow> parse_loop s st = st"
  by (simp add: parse_loop.simps [of s st])

lemma parse_step_literal:
  assumes "c \<noteq> DQUOTE" and "insideQuotes st \<or> (c \<noteq> COMMA \<and> c \<noteq> LF \<and> c \<noteq> CR)"
  shows "parse_step c nc st = st\<lparr>currentCell := currentCell st @ [c], i := i st + 1\<rparr>"
  using assms by (auto simp: parse_step_def)

lemma scan_literal:
  assumes "i st = length p"
    and "\<forall>c\<in>set v. c \<noteq> DQUOTE \<and> (insideQuotes st \<or> (c \<noteq> COMMA \<and> c \<noteq> LF \<and> c \<noteq> CR))"
  shows "parse_loop (p @ v @ q) st =
         parse_loop (p @ v @ q) (st\<lparr>currentCell := currentCell st @ v, i := i st + length v\<rparr>)"
  using assms
proof (induction v arbitrary: p st)
  case Nil
  have "st\<lparr>currentCell := currentCell st @ [], i := i st + length ([] :: jsstring)\<rparr> = st"
    by simp
  then show ?case by simp
next
  case (Cons c v)
  let ?s = "p @ (c # v) @ q"
  let ?st = "st\<lparr>currentCell := currentCell st @ [c], i := i st + 1\<rparr>"
  have lt: "i st < length ?s" using Cons.prems(1) by simp
  have ch: "?s ! i st = c" using Cons.prems(1) by (simp add: nth_append)
  have "parse_step (?s ! i st) (charAt ?s (i st + 1)) st = ?st"
    unfolding ch using Cons.prems(2) by (intro parse_step_literal) auto
  then have "parse_loop ?s st = parse_loop ?s ?st"
    using lt by (simp add: parse_loop_step)
  also have "\<dots> = parse_loop ((p @ [c]) @ v @ q) ?st"
    by simp
  also have "\<dots> = parse_loop ((p @ [c]) @ v @ q)
      (?st\<lparr>currentCell := currentCell ?st @ v, i := i ?st + length v\<rparr>)"
    using Cons.prems by (intro Cons.IH) auto
  finally show ?case by simp
qed

section \<open>Quote handling\<close>

lemma quoteCount_trim: "quoteCount (trim s) \<le> quoteCount s"
  by (simp add: quoteCount_def filter_trim_le)

lemma tableQuotes_pushRow:
  "tableQuotes (pushRow rs row) \<le> tableQuotes rs + sum_list (map quoteCount row)"
  by (simp add: pushRow_def tableQuotes_def)

lemma stateQuotes_escape:
  "stateQuotes (st\<lparr>currentCell := currentCell st @ [DQUOTE], i := k\<rparr>) = stateQuotes st + 1"
  by (simp add: stateQuotes_def quoteCount_def)

lemma stateQuotes_step:
  assumes "\<not> (char = DQUOTE \<and> insideQuotes st \<and> nextChar = Some DQUOTE)"
  shows "stateQuotes (parse_step char nextChar st) \<le> stateQuotes st"
proof -
  have a: "tableQuotes (pushRow (rows st) (currentRow st @ [trim (currentCell st)]))
        \<le> tableQuotes (rows st) + sum_list (map quoteCount (currentRow st)) + quoteCount (currentCell st)"
    using tableQuotes_pushRow [of "rows st" "currentRow st @ [trim (currentCell st)]"]
      quoteCount_trim [of "currentCell st"] by simp
  show ?thesis
    using assms a quoteCount_trim [of "currentCell st"]
    by (auto simp: parse_step_def stateQuotes_def quoteCount_def)
qed

lemma quoteCount_drop_Suc:
  "k < length s \<Longrightarrow> quoteCount (drop k s) = (if s ! k = DQUOTE then 1 else 0) + quoteCount (drop (Suc k) s)"
  by (simp add: quoteCount_def Cons_nth_drop_Suc [symmetric])

lemma quoteCount_drop_le: "quoteCount (drop (Suc k) s) \<le> quoteCount (drop k s)"
proof (cases "k < length s")
  case True
  then show ?thesis by (simp add: quoteCount_drop_Suc)
next
  case False
  then show ?thesis by simp
qed

lemma quote_budget_step:
  assumes "2 * stateQuotes st + quoteCount (drop (i st) s) \<le> quoteCount s" and "i st < length s"
  shows "2 * stateQuotes (parse_step (s ! i st) (charAt s (i st + 1)) st)
          + quoteCount (drop (i (parse_step (s ! i st) (charAt s (i st + 1)) st)) s) \<le> quoteCount s"
proof (cases "s ! i st = DQUOTE \<and> insideQuotes st \<and> charAt s (i st + 1) = Some DQUOTE")
  case True
  then have lt: "Suc (i st) < length s" and nx: "s ! Suc (i st) = DQUOTE"
    by (auto simp: charAt_def split: if_splits)
  have "quoteCount (drop (i st) s) = 2 + quoteCount (drop (i st + 2) s)"
    using True assms(2) lt nx by (simp add: quoteCount_drop_Suc)
  then show ?thesis using True assms(1) by (simp add: parse_step_def stateQuotes_escape)
next
  case False
  let ?st' = "parse_step (s ! i st) (charAt s (i st + 1)) st"
  have q: "stateQuotes ?st' \<le> stateQuotes st"
    using False by (intro stateQuotes_step) simp
  have "i ?st' = i st + 1 \<or> i ?st' = i st + 2"
    by (simp add: parse_step_def)
  then have "quoteCount (drop (i ?st') s) \<le> quoteCount (drop (Suc (i st)) s)"
    using quoteCount_drop_le [of "Suc (i st)" s] by auto
  moreover have "s ! i st = DQUOTE \<Longrightarrow> stateQuotes ?st' = stateQuotes st"
    using False by (auto simp: parse_step_def stateQuotes_def)
  ultimately show ?thesis
    using assms q quoteCount_drop_Suc [of "i st" s]
    by (cases "s ! i st = DQUOTE") (simp_all)
qed

lemma quote_budget_loop:
  "2 * stateQuotes (parse_loop s initial) \<le> quoteCount s"
proof -
  let ?P = "\<lambda>st. 2 * stateQuotes st + quoteCount (drop (i st) s) \<le> quoteCount s"
  have "?P (parse_loop s initial)"
  proof (rule parse_loop_invariant)
    show "?P initial"
      by (simp add: initial_def stateQuotes_def tableQuotes_def quoteCount_def)
  next
    fix st
    assume "?P st" and "i st < length s"
    then show "?P (parse_step (s ! i st) (charAt s (i st + 1)) st)"
      by (rule quote_budget_step)
  qed
  then show ?thesis by simp
qed

lemma tableQuotes_finish: "tableQuotes (finish st) \<le> stateQuotes st"
  using tableQuotes_pushRow [of "rows st" "currentRow st @ [trim (currentCell st)]"]
      quoteCount_trim [of "currentCell st"]
  by (simp add: finish_def stateQuotes_def)

lemma parseCSV_quote_budget: "2 * tableQuotes (parseCSV s) \<le> quoteCount s"
  using quote_budget_loop [of s] tableQuotes_finish [of "parse_loop s initial"]
  by (simp add: parseCSV_def)

text \<open>
  Claim C2. A double-quote met inside a quoted field and followed at once by another
  double-quote appends one double-quote to the cell buffer and advances two positions; any
  other double-quote toggles \<open>insideQuotes\<close> and advances one position. No other turn of
  the loop adds a double-quote to any cell: outside the escape rule the number of double-quotes
  held by the state does not grow, so the cells of the result hold at most half as many
  double-quotes as the input. On the input of the specification's third scenario the second
  cell of the second row is \<open>He said "Hello" to me\<close>.
\<close>

theorem C2_quote_rule:
  "(insideQuotes st \<and> nextChar = Some DQUOTE \<longrightarrow>
      parse_step DQUOTE nextChar st =
        st\<lparr>currentCell := currentCell st @ [DQUOTE], i := i st + 2\<rparr>) \<and>
   (\<not> (insideQuotes st \<and> nextChar = Some DQUOTE) \<longrightarrow>
      parse_step DQUOTE nextChar st = st\<lparr>insideQuotes := \<not> insideQuotes st, i := i st + 1\<rparr>) \<and>
   (\<not> (char = DQUOTE \<and> insideQuotes st \<and> nextChar = Some DQUOTE) \<longrightarrow>
      stateQuotes (parse_step char nextChar st) \<le> stateQuotes st) \<and>
   2 * tableQuotes (parseCSV s) \<le> quoteCount s \<and>
   parseCSV (js ''Name,Quote'' @ [LF] @ js ''\"John\",\"He said \"\"Hello\"\" to me\"'') =
     [[js ''Name'', js ''Quote''], [js ''John'', js ''He said \"Hello\" to me'']]"
proof -
  have "parseCSV (js ''Name,Quote'' @ [LF] @ js ''\"John\",\"He said \"\"Hello\"\" to me\"'') =
     [[js ''Name'', js ''Quote''], [js ''John'', js ''He said \"Hello\" to me'']]"
    by code_simp
  moreover have "2 * tableQuotes (parseCSV s) \<le> quoteCount s"
    by (rule parseCSV_quote_budget)
  moreover have "\<not> (char = DQUOTE \<and> insideQuotes st \<and> nextChar = Some DQUOTE) \<longrightarrow>
      stateQuotes (parse_step char nextChar st) \<le> stateQuotes st"
    using stateQuotes_step by blast
  ultimately show ?thesis
    by (simp add: parse_step_def)
qed

theorem C2_quote_rule_witness:
  "parse_step DQUOTE (Some DQUOTE)
     \<lparr>rows = [], currentRow = [], currentCell = [], insideQuotes = True, i = 0\<rparr> =
     \<lparr>rows = [], currentRow = [], currentCell = [DQUOTE], insideQuotes = True, i = 2\<rparr> \<and>
   parse_step DQUOTE (Some COMMA)
     \<lparr>rows = [], currentRow = [], currentCell = [], insideQuotes = True, i = 0\<rparr> =
     \<lparr>rows = [], currentRow = [], currentCell = [], insideQuotes = False, i = 1\<rparr> \<and>
   stateQuotes (parse_step COMMA (Some DQUOTE)
     \<lparr>rows = [], currentRow = [], currentCell = [DQUOTE], insideQuotes = False, i = 0\<rparr>) \<le> 1 \<and>
   2 * tableQuotes (parseCSV (js ''\"a\"\"b\"'')) \<le> 4"
proof -
  let ?inside = "\<lparr>rows = [], currentRow = [], currentCell = [], insideQuotes = True, i = 0\<rparr>"
  let ?held = "\<lparr>rows = [], currentRow = [], currentCell = [DQUOTE], insideQuotes = False, i = 0\<rparr>"
  have "parse_step DQUOTE (Some DQUOTE) ?inside =
      ?inside\<lparr>currentCell := currentCell ?inside @ [DQUOTE], i := i ?inside + 2\<rparr>"
    using C2_quote_rule [where st = ?inside and nextChar = "Some DQUOTE"] by simp
  then have escape: "parse_step DQUOTE (Some DQUOTE) ?inside =
      \<lparr>rows = [], currentRow = [], currentCell = [DQUOTE], insideQuotes = True, i = 2\<rparr>"
    by simp
  have "parse_step DQUOTE (Some COMMA) ?inside =
      ?inside\<lparr>insideQuotes := \<not> insideQuotes ?inside, i := i ?inside + 1\<rparr>"
    using C2_quote_rule [where st = ?inside and nextChar = "Some COMMA"] by simp
  then have toggle: "parse_step DQUOTE (Some COMMA) ?inside =
      \<lparr>rows = [], currentRow = [], currentCell = [], insideQuotes = False, i = 1\<rparr>"
    by simp
  have "stateQuotes (parse_step COMMA (Some DQUOTE) ?held) \<le> stateQuotes ?held"
    using C2_quote_rule [where st = ?held and nextChar = "Some DQUOTE" and char = COMMA] by simp
  moreover have "stateQuotes ?held = 1"
    by (simp add: stateQuotes_def tableQuotes_def quoteCount_def)
  ultimately have other: "stateQuotes (parse_step COMMA (Some DQUOTE) ?held) \<le> 1"
    by simp
  have "quoteCount (js ''\"a\"\"b\"'') = 4"
    by (simp add: quoteCount_def js_def)
  then have budget: "2 * tableQuotes (parseCSV (js ''\"a\"\"b\"'')) \<le> 4"
    using C2_quote_rule [where s = "js ''\"a\"\"b\"''"] by simp
  from escape toggle other budget show ?thesis
    by (intro conjI)
qed

section \<open>Cells are trimmed\<close>

lemma trim_strip:
  assumes l: "\<forall>c\<in>set l. isWhiteSpace c" and r: "\<forall>c\<in>set r. isWhiteSpace c"
    and m: "m \<noteq> []" "\<not> isWhiteSpace (hd m)" "\<not> isWhiteSpace (last m)"
  shows "trim (l @ m @ r) = m"
proof -
  have "dropWhile isWhiteSpace (l @ m @ r) = dropWhile isWhiteSpace (m @ r)"
    by (rule dropWhile_append2) (use l in auto)
  also have "\<dots> = m @ r"
    using m(1,2) by (cases m) simp_all
  finally have a: "dropWhile isWhiteSpace (l @ m @ r) = m @ r" .
  have "dropWhile isWhiteSpace (rev r @ rev m) = dropWhile isWhiteSpace (rev m)"
    by (rule dropWhile_append2) (use r in auto)
  also have "\<dots> = rev m"
    using m(1,3) by (cases m rule: rev_cases) simp_all
  finally show ?thesis
    by (simp add: trim_def a)
qed

lemma trim_edges:
  assumes "trim s \<noteq> []"
  shows "\<not> isWhiteSpace (hd (trim s)) \<and> \<not> isWhiteSpace (last (trim s))"
proof -
  let ?d = "dropWhile isWhiteSpace (rev (dropWhile isWhiteSpace s))"
  have ne: "?d \<noteq> []" using assms by (simp add: trim_def)
  then have "\<not> isWhiteSpace (hd ?d)" by (rule hd_dropWhile)
  then have last: "\<not> isWhiteSpace (last (trim s))"
    using ne by (simp add: trim_def last_rev)
  have "\<not> isWhiteSpace (hd (trim s))"
  proof
    assume w: "isWhiteSpace (hd (trim s))"
    obtain a t where at: "trim s = a # t"
      using assms by (cases "trim s") auto
    have "dropWhile isWhiteSpace (trim s) = trim s"
      unfolding trim_def by (rule dropWhile_rev_dropWhile)
    then have "dropWhile isWhiteSpace t = a # t"
      using w at by simp
    then have "length (dropWhile isWhiteSpace t) = Suc (length t)"
      by simp
    then show False
      using length_dropWhile_le [of isWhiteSpace t] by simp
  qed
  with last show ?thesis by simp
qed

lemma stateCells_step:
  "set (stateCells (parse_step c nc st)) \<subseteq> insert (trim (currentCell st)) (set (stateCells st))"
  by (auto simp: stateCells_def parse_step_def pushRow_def)

lemma stateCells_finish:
  "set (concat (finish st)) \<subseteq> insert (trim (currentCell st)) (set (stateCells st))"
  by (auto simp: stateCells_def finish_def pushRow_def)

lemma trimmedState_step:
  assumes "trimmedState st" shows "trimmedState (parse_step c nc st)"
  unfolding trimmedState_def
proof
  fix x assume "x \<in> set (stateCells (parse_step c nc st))"
  then have "x = trim (currentCell st) \<or> x \<in> set (stateCells st)"
    using stateCells_step [of c nc st] by auto
  then show "trim x = x"
    using assms by (auto simp: trimmedState_def)
qed

lemma trimmedState_loop: "trimmedState (parse_loop s initial)"
proof (rule parse_loop_invariant [where P = trimmedState])
  show "trimmedState initial"
    by (simp add: trimmedState_def stateCells_def initial_def)
qed (rule trimmedState_step)

lemma parseCSV_trimmed:
  assumes "row \<in> set (parseCSV s)" and "cell \<in> set row"
  shows "trim cell = cell"
proof -
  let ?st = "parse_loop s initial"
  have "cell \<in> set (concat (finish ?st))"
    using assms by (auto simp: parseCSV_def)
  then have "cell = trim (currentCell ?st) \<or> cell \<in> set (stateCells ?st)"
    using stateCells_finish [of ?st] by auto
  then show ?thesis
    using trimmedState_loop [of s] by (auto simp: trimmedState_def)
qed

lemma finish_after_cell:
  "finish \<lparr>rows = rs, currentRow = [], currentCell = v, insideQuotes = q, i = k\<rparr> =
     (if trim v = [] then rs else rs @ [[trim v]])"
  by (auto simp: finish_def pushRow_def)

lemma parseCSV_quoted_field:
  assumes "DQUOTE \<notin> set v"
  shows "parseCSV (DQUOTE # v @ [DQUOTE]) = (if trim v = [] then [] else [[trim v]])"
proof -
  let ?s = "[DQUOTE] @ v @ [DQUOTE]"
  let ?st1 = "\<lparr>rows = [], currentRow = [], currentCell = [], insideQuotes = True, i = 1\<rparr>"
  let ?st2 = "\<lparr>rows = [], currentRow = [], currentCell = v, insideQuotes = True, i = 1 + length v\<rparr>"
  let ?st3 = "\<lparr>rows = [], currentRow = [], currentCell = v, insideQuotes = False, i = 2 + length v\<rparr>"
  have "parse_loop ?s initial = parse_loop ?s ?st1"
    by (simp add: parse_loop_step initial_def parse_step_def)
  also have "\<dots> = parse_loop ?s (?st1\<lparr>currentCell := currentCell ?st1 @ v, i := i ?st1 + length v\<rparr>)"
    using assms by (intro scan_literal) auto
  also have "\<dots> = parse_loop ?s ?st2"
    by simp
  also have "\<dots> = parse_loop ?s ?st3"
    by (simp add: parse_loop_step parse_step_def charAt_def nth_append)
  also have "\<dots> = ?st3"
    by (simp add: parse_loop_done)
  finally show ?thesis
    by (simp add: parseCSV_def finish_after_cell)
qed

lemma parseCSV_quoted_padded:
  assumes "DQUOTE \<notin> set (l @ m @ r)"
    and "\<forall>c\<in>set l. isWhiteSpace c" and "\<forall>c\<in>set r. isWhiteSpace c"
    and "m \<noteq> []" and "\<not> isWhiteSpace (hd m)" and "\<not> isWhiteSpace (last m)"
  shows "parseCSV (DQUOTE # (l @ m @ r) @ [DQUOTE]) = [[m]]"
proof -
  have "trim (l @ m @ r) = m"
    using assms(2-) by (rule trim_strip)
  then show ?thesis
    using parseCSV_quoted_field [OF assms(1)] assms(4) by simp
qed

text \<open>
  Claim C5. Every cell of the parse result is a fixed point of \<open>trim\<close>, so it neither begins
  nor ends with whitespace. A turn of the loop and the statements after the loop add to the
  finished cells nothing but the trim of the cell buffer. A quoted field is trimmed like any
  other: a field \<open>"v"\<close> without inner double-quotes parses to the single cell \<open>trim v\<close>
  (to no row when \<open>v\<close> is blank), and when \<open>v\<close> is whitespace, then a text \<open>m\<close> with
  non-whitespace ends, then whitespace, that cell is \<open>m\<close> with its interior untouched;
  \<open>" padded "\<close> parses to \<open>padded\<close>.
\<close>

theorem C5_cells_trimmed:
  "(\<forall>row\<in>set (parseCSV s). \<forall>cell\<in>set row.
      trim cell = cell \<and> (cell \<noteq> [] \<longrightarrow> \<not> isWhiteSpace (hd cell) \<and> \<not> isWhiteSpace (last cell))) \<and>
   set (stateCells (parse_step char nextChar st)) \<subseteq>
     insert (trim (currentCell st)) (set (stateCells st)) \<and>
   set (concat (finish st)) \<subseteq> insert (trim (currentCell st)) (set (stateCells st)) \<and>
   (DQUOTE \<notin> set v \<longrightarrow>
      parseCSV (DQUOTE # v @ [DQUOTE]) = (if trim v = [] then [] else [[trim v]])) \<and>
   (DQUOTE \<notin> set (l @ m @ r) \<and> (\<forall>c\<in>set l. isWhiteSpace c) \<and> (\<forall>c\<in>set r. isWhiteSpace c) \<and>
    m \<noteq> [] \<and> \<not> isWhiteSpace (hd m) \<and> \<not> isWhiteSpace (last m) \<longrightarrow>
      parseCSV (DQUOTE # (l @ m @ r) @ [DQUOTE]) = [[m]]) \<and>
   parseCSV (js ''\" padded \"'') = [[js ''padded'']] \<and>
   parseCSV (js ''\"  a b \"'') = [[js ''a b'']]"
proof -
  have "\<forall>row\<in>set (parseCSV s). \<forall>cell\<in>set row.
      trim cell = cell \<and> (cell \<noteq> [] \<longrightarrow> \<not> isWhiteSpace (hd cell) \<and> \<not> isWhiteSpace (last cell))"
  proof (intro ballI)
    fix row cell assume "row \<in> set (parseCSV s)" and "cell \<in> set row"
    then have t: "trim cell = cell" by (rule parseCSV_trimmed)
    then show "trim cell = cell \<and> (cell \<noteq> [] \<longrightarrow> \<not> isWhiteSpace (hd cell) \<and> \<not> isWhiteSpace (last cell))"
      using trim_edges [of cell] by simp
  qed
  moreover have "parseCSV (js ''\" padded \"'') = [[js ''padded'']]"
    by code_simp
  moreover have "parseCSV (js ''\"  a b \"'') = [[js ''a b'']]"
    by code_simp
  ultimately show ?thesis
    using stateCells_step [of char nextChar st] stateCells_finish [of st] parseCSV_quoted_field [of v]
      parseCSV_quoted_padded [of l m r]
    by blast
qed

theorem C5_cells_trimmed_witness:
  "trim (js ''padded'') = js ''padded'' \<and>
   parseCSV (DQUOTE # js '' a b '' @ [DQUOTE]) = [[js ''a b'']] \<and>
   parseCSV (DQUOTE # ([SPACE] @ js ''c  d'' @ [SPACE, SPACE]) @ [DQUOTE]) = [[js ''c  d'']]"
proof -
  have p: "parseCSV (js ''\" padded \"'') = [[js ''padded'']]"
    using C5_cells_trimmed by blast
  have "\<forall>row\<in>set (parseCSV (js ''\" padded \"'')). \<forall>cell\<in>set row. trim cell = cell"
    using C5_cells_trimmed [where s = "js ''\" padded \"''"] by blast
  then have a: "trim (js ''padded'') = js ''padded''"
    unfolding p by simp
  have "DQUOTE \<notin> set (js '' a b '')"
    by (simp add: js_def)
  then have "parseCSV (DQUOTE # js '' a b '' @ [DQUOTE]) =
      (if trim (js '' a b '') = [] then [] else [[trim (js '' a b '')]])"
    using C5_cells_trimmed [where v = "js '' a b ''"] by blast
  moreover have "trim (js '' a b '') = js ''a b''"
    by (simp add: trim_def js_def isWhiteSpace_def)
  ultimately have b: "parseCSV (DQUOTE # js '' a b '' @ [DQUOTE]) = [[js ''a b'']]"
    by (simp add: js_def)
  have "DQUOTE \<notin> set ([SPACE] @ js ''c  d'' @ [SPACE, SPACE]) \<and>
      (\<forall>c\<in>set [SPACE]. isWhiteSpace c) \<and> (\<forall>c\<in>set [SPACE, SPACE]. isWhiteSpace c) \<and>
      js ''c  d'' \<noteq> [] \<and> \<not> isWhiteSpace (hd (js ''c  d'')) \<and> \<not> isWhiteSpace (last (js ''c  d''))"
    by (simp add: js_def isWhiteSpace_def)
  then have c: "parseCSV (DQUOTE # ([SPACE] @ js ''c  d'' @ [SPACE, SPACE]) @ [DQUOTE]) = [[js ''c  d'']]"
    using C5_cells_trimmed [where l = "[SPACE]" and m = "js ''c  d''" and r = "[SPACE, SPACE]"]
    by blast
  from a b c show ?thesis by simp
qed

section \<open>The last row\<close>

lemma charAt_append_last:
  "Suc k < length s \<Longrightarrow> charAt (s @ t) (Suc k) = charAt s (Suc k)"
  by (simp add: charAt_def nth_append)

lemma parse_step_next_irrelevant:
  assumes "c \<noteq> DQUOTE" and "c \<noteq> CR \<or> insideQuotes st"
  shows "parse_step c nc st = parse_step c nc' st"
  using assms by (auto simp: parse_step_def)

lemma parse_step_i_le:
  "i (parse_step c nc st) = i st + 1 \<or> (i (parse_step c nc st) = i st + 2 \<and> nc \<noteq> None)"
  by (auto simp: parse_step_def)

lemma finish_LF_step:
  assumes "\<not> insideQuotes st"
  shows "finish (parse_step LF nc st) = finish st"
  using assms by (auto simp: parse_step_def finish_def pushRow_def)

lemma finish_loop_append_LF:
  assumes "i st \<le> length s" and "\<not> insideQuotes (parse_loop s st)"
  shows "finish (parse_loop (s @ [LF]) st) = finish (parse_loop s st)"
  using assms
proof (induction s st rule: parse_loop.induct)
  case (1 s st)
  let ?t = "s @ [LF]"
  show ?case
  proof (cases "i st < length s")
    case False
    with "1.prems" have eq: "i st = length s" by simp
    then have fin: "parse_loop s st = st" by (simp add: parse_loop_done)
    with "1.prems" have nq: "\<not> insideQuotes st" by simp
    have "parse_loop ?t st = parse_loop ?t (parse_step LF None st)"
      using eq by (simp add: parse_loop_step charAt_def)
    also have "\<dots> = parse_step LF None st"
      using eq parse_step_i_le [of LF None st] by (intro parse_loop_done) auto
    finally show ?thesis
      using nq fin by (simp add: finish_LF_step)
  next
    case True
    let ?c = "s ! i st"
    let ?st1 = "parse_step ?c (charAt s (i st + 1)) st"
    have loop_s: "parse_loop s st = parse_loop s ?st1"
      using True by (simp add: parse_loop_step)
    have loop_t: "parse_loop ?t st = parse_loop ?t (parse_step ?c (charAt ?t (i st + 1)) st)"
      using True by (simp add: parse_loop_step nth_append)
    show ?thesis
    proof (cases "Suc (i st) < length s")
      case inner: True
      then have "charAt ?t (i st + 1) = charAt s (i st + 1)"
        by (simp add: charAt_append_last)
      moreover have "i ?st1 \<le> length s"
        using inner parse_step_i_le [of ?c "charAt s (i st + 1)" st] by auto
      moreover have "\<not> insideQuotes (parse_loop s ?st1)"
        using "1.prems"(2) loop_s by simp
      ultimately show ?thesis
        using "1.IH" [OF True] loop_s loop_t by simp
    next
      case False
      with True have last: "Suc (i st) = length s" by simp
      then have nc: "charAt s (i st + 1) = None" and nc': "charAt ?t (i st + 1) = Some LF"
        by (simp_all add: charAt_def)
      show ?thesis
      proof (cases "?c = CR \<and> \<not> insideQuotes st")
        case True
        let ?rs = "pushRow (rows st) (currentRow st @ [trim (currentCell st)])"
        have a: "?st1 = st\<lparr>rows := ?rs, currentRow := [], currentCell := [], i := i st + 1\<rparr>"
          using True nc by (simp add: parse_step_def)
        have b: "parse_step ?c (charAt ?t (i st + 1)) st =
            st\<lparr>rows := ?rs, currentRow := [], currentCell := [], i := i st + 2\<rparr>"
          using True nc' by (simp add: parse_step_def)
        have ia: "i ?st1 = i st + 1"
          by (simp only: a) simp
        have ib: "i (parse_step ?c (charAt ?t (i st + 1)) st) = i st + 2"
          by (simp only: b) simp
        have fa: "finish ?st1 = ?rs"
          by (simp only: a) (simp add: finish_def)
        have fb: "finish (parse_step ?c (charAt ?t (i st + 1)) st) = ?rs"
          by (simp only: b) (simp add: finish_def)
        have "length s \<le> i ?st1"
          unfolding ia using last by simp
        then have pa: "parse_loop s ?st1 = ?st1"
          by (rule parse_loop_done)
        have "length ?t \<le> i (parse_step ?c (charAt ?t (i st + 1)) st)"
          unfolding ib using last by simp
        then have pb: "parse_loop ?t (parse_step ?c (charAt ?t (i st + 1)) st) =
            parse_step ?c (charAt ?t (i st + 1)) st"
          by (rule parse_loop_done)
        show ?thesis
          by (simp only: loop_s loop_t pa pb fa fb)
      next
        case False
        have same: "parse_step ?c (charAt ?t (i st + 1)) st = ?st1"
        proof (cases "?c = DQUOTE")
          case True
          then show ?thesis
            unfolding nc nc' by (simp add: parse_step_def)
        next
          case nd: False
          then show ?thesis
            using False by (intro parse_step_next_irrelevant) auto
        qed
        have "i ?st1 \<le> length s"
          using last nc parse_step_i_le [of ?c "charAt s (i st + 1)" st] by auto
        moreover have "\<not> insideQuotes (parse_loop s ?st1)"
          using "1.prems"(2) loop_s by simp
        ultimately show ?thesis
          using "1.IH" [OF True] loop_s loop_t same by simp
      qed
    qed
  qed
qed

lemma parseCSV_append_LF:
  "\<not> insideQuotes (parse_loop s initial) \<Longrightarrow> parseCSV (s @ [LF]) = parseCSV s"
  unfolding parseCSV_def by (rule finish_loop_append_LF) (simp_all add: initial_def)

text \<open>
  Claim C4. After the scan, when the cell buffer or the row buffer is non-empty, the last cell
  is trimmed and appended to the row, and the row is appended to the result if one of its cells
  is non-empty; when both buffers are empty nothing is appended. So a last row without a line
  terminator is kept: whenever the scan ends outside a quoted field, the input parses to the
  same table as the input followed by a line-feed.
\<close>

theorem C4_trailing_row:
  "parseCSV s =
     (let st = parse_loop s initial; row = currentRow st @ [trim (currentCell st)]
      in if currentCell st \<noteq> [] \<or> currentRow st \<noteq> []
         then (if \<exists>cell\<in>set row. cell \<noteq> [] then rows st @ [row] else rows st)
         else rows st) \<and>
   (\<not> insideQuotes (parse_loop s initial) \<longrightarrow> parseCSV (s @ [LF]) = parseCSV s)"
proof -
  have "parseCSV s =
     (let st = parse_loop s initial; row = currentRow st @ [trim (currentCell st)]
      in if currentCell st \<noteq> [] \<or> currentRow st \<noteq> []
         then (if \<exists>cell\<in>set row. cell \<noteq> [] then rows st @ [row] else rows st)
         else rows st)"
    by (simp add: parseCSV_def finish_def pushRow_def list_ex_iff Let_def)
  then show ?thesis
    using parseCSV_append_LF [of s] by blast
qed

theorem C4_trailing_row_witness:
  "parseCSV (js ''h'' @ [LF] @ js ''a,b'') = [[js ''h''], [js ''a'', js ''b'']] \<and>
   parseCSV ((js ''h'' @ [LF] @ js ''a,b'') @ [LF]) = parseCSV (js ''h'' @ [LF] @ js ''a,b'')"
proof -
  let ?s = "js ''h'' @ [LF] @ js ''a,b''"
  have st: "parse_loop ?s initial =
      \<lparr>rows = [[js ''h'']], currentRow = [js ''a''], currentCell = js ''b'',
       insideQuotes = False, i = 5\<rparr>"
    by code_simp
  have tr: "trim (js ''b'') = js ''b''"
    by code_simp
  have "parseCSV ?s = [[js ''h''], [js ''a'', js ''b'']]"
    using C4_trailing_row [of ?s] unfolding st by (simp add: Let_def tr) (simp add: js_def)
  moreover have "parseCSV (?s @ [LF]) = parseCSV ?s"
    using C4_trailing_row [of ?s] unfolding st by simp
  ultimately show ?thesis by simp
qed

section \<open>Rows without content\<close>

lemma keptRows_pushRow: "keptRows rs \<Longrightarrow> keptRows (pushRow rs row)"
  by (auto simp: keptRows_def pushRow_def list_ex_iff)

lemma keptRows_step: "keptRows (rows st) \<Longrightarrow> keptRows (rows (parse_step c nc st))"
  by (simp add: parse_step_def keptRows_pushRow)

lemma keptRows_loop: "keptRows (rows (parse_loop s initial))"
proof (rule parse_loop_invariant [where P = "\<lambda>st. keptRows (rows st)"])
  show "keptRows (rows initial)"
    by (simp add: keptRows_def initial_def)
qed (rule keptRows_step)

lemma keptRows_parseCSV: "keptRows (parseCSV s)"
  using keptRows_loop [of s] by (simp add: parseCSV_def finish_def keptRows_pushRow)

lemma pushRow_blank:
  assumes "\<forall>cell\<in>set row. cell = []" and "\<forall>c\<in>set cell. isWhiteSpace c"
  shows "pushRow rs (row @ [trim cell]) = rs"
proof -
  have "trim cell = []" using assms(2) by (simp add: trim_eq_Nil_iff)
  then show ?thesis using assms(1) by (simp add: pushRow_def list_ex_iff)
qed

lemma blank_step:
  assumes "blankBuffers st" and "c = COMMA \<or> isWhiteSpace c"
  shows "blankBuffers (parse_step c nc st) \<and> rows (parse_step c nc st) = rows st \<and>
     (i (parse_step c nc st) = i st + 1 \<or>
      (i (parse_step c nc st) = i st + 2 \<and> nc = Some LF \<and>
       currentRow (parse_step c nc st) = [] \<and> currentCell (parse_step c nc st) = []))"
proof -
  have nq: "c \<noteq> DQUOTE" using assms(2) by auto
  have pr: "pushRow (rows st) (currentRow st @ [trim (currentCell st)]) = rows st"
    using assms(1) by (intro pushRow_blank) (simp_all add: blankBuffers_def)
  have tr: "trim (currentCell st) = []"
    using assms(1) by (simp add: trim_eq_Nil_iff blankBuffers_def)
  show ?thesis
    using assms nq pr tr by (auto simp: parse_step_def blankBuffers_def)
qed

lemma scan_blank:
  assumes "blankBuffers st" and "i st \<le> n" and "n \<le> length s"
    and "\<forall>k. i st \<le> k \<and> k < n \<longrightarrow> s ! k = COMMA \<or> isWhiteSpace (s ! k)"
  shows "\<exists>st'. parse_loop s st = parse_loop s st' \<and> blankBuffers st' \<and> rows st' = rows st \<and>
     (i st' = n \<or>
      (i st' = n + 1 \<and> n < length s \<and> s ! n = LF \<and> currentRow st' = [] \<and> currentCell st' = []))"
  using assms
proof (induction "n - i st" arbitrary: st rule: less_induct)
  case less
  show ?case
  proof (cases "i st = n")
    case True
    with less.prems(1) show ?thesis by blast
  next
    case False
    with less.prems(2) have lt: "i st < n" by simp
    let ?c = "s ! i st"
    let ?nc = "charAt s (i st + 1)"
    let ?st1 = "parse_step ?c ?nc st"
    have bl: "?c = COMMA \<or> isWhiteSpace ?c"
      using less.prems(4) lt by simp
    note step = blank_step [OF less.prems(1) bl, of ?nc]
    have loop: "parse_loop s st = parse_loop s ?st1"
      using lt less.prems(3) by (simp add: parse_loop_step)
    show ?thesis
    proof (cases "i ?st1 \<le> n")
      case True
      have "i st < i ?st1" using step by auto
      then have "n - i ?st1 < n - i st" using lt by simp
      moreover have "\<forall>k. i ?st1 \<le> k \<and> k < n \<longrightarrow> s ! k = COMMA \<or> isWhiteSpace (s ! k)"
        using less.prems(4) \<open>i st < i ?st1\<close> by simp
      ultimately obtain st' where
        "parse_loop s ?st1 = parse_loop s st'" "blankBuffers st'" "rows st' = rows ?st1"
        "i st' = n \<or> (i st' = n + 1 \<and> n < length s \<and> s ! n = LF \<and> currentRow st' = [] \<and> currentCell st' = [])"
        using less.hyps [of ?st1] step True less.prems(3) by blast
      then show ?thesis using loop step by (intro exI [of _ st']) simp
    next
      case False
      then have two: "i ?st1 = i st + 2" and nx: "?nc = Some LF"
        and emp: "currentRow ?st1 = []" "currentCell ?st1 = []"
        using step lt by auto
      from False two lt have n: "n = i st + 1" by simp
      from nx have at: "n < length s \<and> s ! n = LF"
        unfolding n by (simp add: charAt_def split: if_splits)
      have b1: "blankBuffers ?st1" and r1: "rows ?st1 = rows st"
        using step by blast+
      have "i ?st1 = n + 1"
        using two n by simp
      with loop b1 r1 at emp show ?thesis
        by blast
    qed
  qed
qed

lemma nth_middle_part:
  assumes "length p \<le> k" and "k < length p + length l"
  shows "(p @ l @ q) ! k = l ! (k - length p)"
proof -
  have "k - length p < length l"
    using assms by arith
  then show ?thesis
    using assms(1) by (simp add: nth_append)
qed

lemma blank_line_chars:
  assumes "blankLine l" and "length p \<le> k" and "k < length p + length l"
  shows "(p @ l @ q) ! k = COMMA \<or> isWhiteSpace ((p @ l @ q) ! k)"
proof -
  have "(p @ l @ q) ! k = l ! (k - length p)"
    using assms(2,3) by (rule nth_middle_part)
  moreover have "l ! (k - length p) \<in> set l"
    using assms(2,3) by (intro nth_mem) arith
  ultimately show ?thesis
    using assms(1) by (simp add: blankLine_def)
qed

lemma finish_blank: "blankBuffers st \<Longrightarrow> finish st = rows st"
  by (simp add: finish_def pushRow_blank blankBuffers_def)

lemma blank_line_at_end:
  assumes "blankBuffers st" and "i st = length p" and "blankLine l"
  shows "finish (parse_loop (p @ l) st) = rows st"
proof -
  let ?s = "p @ l"
  have chars: "\<forall>k. i st \<le> k \<and> k < length ?s \<longrightarrow> ?s ! k = COMMA \<or> isWhiteSpace (?s ! k)"
    using blank_line_chars [OF assms(3), of p _ "[]"] assms(2) by simp
  obtain st' where st': "parse_loop ?s st = parse_loop ?s st'" "blankBuffers st'" "rows st' = rows st"
    "i st' = length ?s"
    using scan_blank [OF assms(1) _ _ chars] assms(2) by auto
  have "parse_loop ?s st' = st'"
    using st'(4) by (intro parse_loop_done) simp
  then show ?thesis
    using st' by (simp add: finish_blank)
qed

lemma terminator_step_blank:
  assumes "blankBuffers st" and "t = LF \<or> (t = CR \<and> nc \<noteq> Some LF)"
  shows "parse_step t nc st =
     \<lparr>rows = rows st, currentRow = [], currentCell = [], insideQuotes = False, i = i st + 1\<rparr>"
proof -
  have pr: "pushRow (rows st) (currentRow st @ [trim (currentCell st)]) = rows st"
    using assms(1) by (intro pushRow_blank) (simp_all add: blankBuffers_def)
  show ?thesis
    using assms pr by (cases st) (auto simp: parse_step_def blankBuffers_def)
qed

lemma blank_line_then_terminator:
  assumes "blankBuffers st" and "i st = length p" and "blankLine l"
    and "t = LF \<or> (t = CR \<and> (q = [] \<or> hd q \<noteq> LF))"
  shows "parse_loop (p @ l @ t # q) st =
     parse_loop (p @ l @ t # q)
       \<lparr>rows = rows st, currentRow = [], currentCell = [], insideQuotes = False,
        i = length p + length l + 1\<rparr>"
proof -
  let ?s = "p @ l @ t # q"
  let ?n = "length p + length l"
  have chars: "\<forall>k. i st \<le> k \<and> k < ?n \<longrightarrow> ?s ! k = COMMA \<or> isWhiteSpace (?s ! k)"
    using blank_line_chars [OF assms(3), of p _ "t # q"] assms(2) by simp
  have at: "?s ! ?n = t"
    by (simp add: nth_append)
  have nx: "t = CR \<Longrightarrow> charAt ?s (?n + 1) \<noteq> Some LF"
    using assms(4) by (cases q) (auto simp: charAt_def nth_append)
  obtain st' where st': "parse_loop ?s st = parse_loop ?s st'" "blankBuffers st'" "rows st' = rows st"
    "i st' = ?n \<or> (i st' = ?n + 1 \<and> ?s ! ?n = LF \<and> currentRow st' = [] \<and> currentCell st' = [])"
    using scan_blank [OF assms(1) _ _ chars] assms(2) by auto
  let ?target = "\<lparr>rows = rows st, currentRow = [], currentCell = [], insideQuotes = False,
        i = length p + length l + 1\<rparr>"
  show ?thesis
  proof (cases "i st' = ?n")
    case True
    then have "parse_loop ?s st' = parse_loop ?s (parse_step t (charAt ?s (?n + 1)) st')"
      using at by (simp add: parse_loop_step)
    also have "parse_step t (charAt ?s (?n + 1)) st' = ?target"
      using terminator_step_blank [OF st'(2), of t "charAt ?s (?n + 1)"] assms(4) nx True st'(3)
      by auto
    finally show ?thesis using st'(1) by simp
  next
    case False
    then have "st' = ?target"
      using st' by (cases st') (simp add: blankBuffers_def)
    then show ?thesis using st'(1) by simp
  qed
qed

lemma parse_step_shift:
  "parse_step c nc (st\<lparr>i := k + i st\<rparr>) = (parse_step c nc st)\<lparr>i := k + i (parse_step c nc st)\<rparr>"
  by (simp add: parse_step_def)

lemma parse_loop_shift:
  "parse_loop (p @ b) (st\<lparr>i := length p + i st\<rparr>) =
     (parse_loop b st)\<lparr>i := length p + i (parse_loop b st)\<rparr>"
proof (induction b st rule: parse_loop.induct)
  case (1 b st)
  let ?sh = "st\<lparr>i := length p + i st\<rparr>"
  show ?case
  proof (cases "i st < length b")
    case True
    let ?st1 = "parse_step (b ! i st) (charAt b (i st + 1)) st"
    have ch: "(p @ b) ! i ?sh = b ! i st"
      by (simp add: nth_append)
    have nc: "charAt (p @ b) (i ?sh + 1) = charAt b (i st + 1)"
      by (simp add: charAt_def nth_append)
    have "parse_loop (p @ b) ?sh = parse_loop (p @ b) (parse_step (b ! i st) (charAt b (i st + 1)) ?sh)"
      using True parse_loop_step [of ?sh "p @ b"] unfolding ch nc by simp
    also have "\<dots> = parse_loop (p @ b) (?st1\<lparr>i := length p + i ?st1\<rparr>)"
      by (simp only: parse_step_shift)
    also have "\<dots> = (parse_loop b ?st1)\<lparr>i := length p + i (parse_loop b ?st1)\<rparr>"
      using True by (rule "1.IH")
    also have "parse_loop b ?st1 = parse_loop b st"
      using True by (simp add: parse_loop_step)
    finally show ?thesis .
  next
    case False
    then show ?thesis by (simp add: parse_loop_done)
  qed
qed

lemma finish_shift: "finish (st\<lparr>i := k\<rparr>) = finish st"
  by (simp add: finish_def)

lemma finish_from_line_start:
  "finish (parse_loop (p @ b)
      \<lparr>rows = rs, currentRow = [], currentCell = [], insideQuotes = False, i = length p\<rparr>) =
   finish (parse_loop b
      \<lparr>rows = rs, currentRow = [], currentCell = [], insideQuotes = False, i = 0\<rparr>)"
  using parse_loop_shift [of p b
      "\<lparr>rows = rs, currentRow = [], currentCell = [], insideQuotes = False, i = 0\<rparr>"]
  by (simp add: finish_shift)

lemma blank_line_skipped_LF:
  assumes "blankLine l" and "t = LF \<or> (t = CR \<and> (b = [] \<or> hd b \<noteq> LF))"
  shows "finish (parse_loop (p @ l @ t # b)
      \<lparr>rows = rs, currentRow = [], currentCell = [], insideQuotes = False, i = length p\<rparr>) =
    finish (parse_loop (p @ b)
      \<lparr>rows = rs, currentRow = [], currentCell = [], insideQuotes = False, i = length p\<rparr>)"
proof -
  let ?st = "\<lparr>rows = rs, currentRow = [], currentCell = [], insideQuotes = False, i = length p\<rparr>"
  have "blankBuffers ?st" by (simp add: blankBuffers_def)
  then have "parse_loop (p @ l @ t # b) ?st = parse_loop (p @ l @ t # b)
       \<lparr>rows = rows ?st, currentRow = [], currentCell = [], insideQuotes = False,
        i = length p + length l + 1\<rparr>"
    using assms by (intro blank_line_then_terminator) simp_all
  then have "finish (parse_loop (p @ l @ t # b) ?st) =
      finish (parse_loop ((p @ l @ [t]) @ b)
        \<lparr>rows = rs, currentRow = [], currentCell = [], insideQuotes = False,
         i = length (p @ l @ [t])\<rparr>)"
    by simp
  then show ?thesis
    by (simp only: finish_from_line_start)
qed

lemma blank_line_skipped:
  assumes "blankLine l" and "t = LF \<or> t = CR"
  shows "finish (parse_loop (p @ l @ t # b)
      \<lparr>rows = rs, currentRow = [], currentCell = [], insideQuotes = False, i = length p\<rparr>) =
    finish (parse_loop (p @ b)
      \<lparr>rows = rs, currentRow = [], currentCell = [], insideQuotes = False, i = length p\<rparr>)"
proof (cases "t = CR \<and> b \<noteq> [] \<and> hd b = LF")
  case False
  then show ?thesis using assms by (intro blank_line_skipped_LF) auto
next
  case True
  then obtain b' where b: "b = LF # b'" by (cases b) auto
  let ?st = "\<lparr>rows = rs, currentRow = [], currentCell = [], insideQuotes = False, i = length p\<rparr>"
  have "blankLine (l @ [CR])" using assms(1) by (simp add: blankLine_def)
  then have "finish (parse_loop (p @ (l @ [CR]) @ LF # b') ?st) = finish (parse_loop (p @ b') ?st)"
    by (intro blank_line_skipped_LF) simp_all
  moreover have "finish (parse_loop (p @ [] @ LF # b') ?st) = finish (parse_loop (p @ b') ?st)"
    by (intro blank_line_skipped_LF) (simp_all add: blankLine_def)
  ultimately show ?thesis using True b by simp
qed

lemma nth_eq_last: "Suc k = length s \<Longrightarrow> s ! k = last s"
  by (cases s rule: rev_cases) (auto simp: nth_append)

lemma parse_loop_i: "i st \<le> length s \<Longrightarrow> i (parse_loop s st) = length s"
proof (induction s st rule: parse_loop.induct)
  case (1 s st)
  show ?case
  proof (cases "i st < length s")
    case True
    let ?st1 = "parse_step (s ! i st) (charAt s (i st + 1)) st"
    have "i ?st1 \<le> length s"
      using True parse_step_i_le [of "s ! i st" "charAt s (i st + 1)" st]
      by (auto simp: charAt_def split: if_splits)
    then have "i (parse_loop s ?st1) = length s"
      using True by (intro "1.IH")
    then show ?thesis using True by (simp add: parse_loop_step)
  next
    case False
    with "1.prems" show ?thesis by (simp add: parse_loop_done)
  qed
qed

lemma parse_loop_prefix:
  assumes "p \<noteq> []" and "last p \<noteq> DQUOTE" and "i st \<le> length p"
  shows "parse_loop (p @ q) st = parse_loop (p @ q) (parse_loop p st)"
  using assms
proof (induction p st rule: parse_loop.induct)
  case (1 p st)
  show ?case
  proof (cases "i st < length p")
    case True
    let ?c = "p ! i st"
    let ?st1 = "parse_step ?c (charAt p (i st + 1)) st"
    have unfold_p: "parse_loop p st = parse_loop p ?st1"
      using True by (simp add: parse_loop_step)
    have unfold_pq: "parse_loop (p @ q) st =
        parse_loop (p @ q) (parse_step ?c (charAt (p @ q) (i st + 1)) st)"
      using True by (simp add: parse_loop_step nth_append)
    have le: "i ?st1 \<le> length p"
      using True parse_step_i_le [of ?c "charAt p (i st + 1)" st]
      by (auto simp: charAt_def split: if_splits)
    show ?thesis
    proof (cases "Suc (i st) = length p \<and> ?c = CR \<and> \<not> insideQuotes st \<and>
        charAt (p @ q) (i st + 1) = Some LF")
      case False
      have same: "parse_step ?c (charAt (p @ q) (i st + 1)) st = ?st1"
      proof (cases "Suc (i st) < length p")
        case True
        then show ?thesis by (simp add: charAt_append_last)
      next
        case last: False
        with True have eq: "Suc (i st) = length p" by simp
        then have "?c = last p"
          by (rule nth_eq_last)
        then have nq: "?c \<noteq> DQUOTE"
          using "1.prems"(2) by simp
        have none: "charAt p (i st + 1) = None"
          using eq by (simp add: charAt_def)
        show ?thesis
        proof (cases "?c = CR \<and> \<not> insideQuotes st")
          case True
          with False eq have "charAt (p @ q) (i st + 1) \<noteq> Some LF" by simp
          then show ?thesis
            using True none by (simp add: parse_step_def)
        next
          case False
          then show ?thesis
            using nq by (intro parse_step_next_irrelevant) auto
        qed
      qed
      have "parse_loop (p @ q) st = parse_loop (p @ q) ?st1"
        using unfold_pq same by simp
      also have "\<dots> = parse_loop (p @ q) (parse_loop p ?st1)"
        using True "1.prems"(1,2) le by (intro "1.IH")
      finally show ?thesis
        using unfold_p by simp
    next
      case True
      let ?rs = "pushRow (rows st) (currentRow st @ [trim (currentCell st)])"
      let ?closed = "\<lambda>k. st\<lparr>rows := ?rs, currentRow := [], currentCell := [], i := k\<rparr>"
      have cr: "?c = CR" and nq: "\<not> insideQuotes st"
        and nx: "charAt (p @ q) (i st + 1) = Some LF"
        and eq: "Suc (i st) = length p"
        using True by blast+
      have none: "charAt p (i st + 1) = None"
        using eq by (simp add: charAt_def)
      have st1: "?st1 = ?closed (i st + 1)"
        unfolding cr none using nq by (simp add: parse_step_def)
      have st1': "parse_step ?c (charAt (p @ q) (i st + 1)) st = ?closed (i st + 2)"
        unfolding cr nx using nq by (simp add: parse_step_def)
      have at: "(p @ q) ! (i st + 1) = LF" and lt: "i st + 1 < length (p @ q)"
        using nx by (simp_all add: charAt_def split: if_splits)
      have "i ?st1 = i st + 1"
        by (simp only: st1) simp
      then have "length p \<le> i ?st1"
        using eq by simp
      then have "parse_loop p ?st1 = ?st1"
        by (rule parse_loop_done)
      then have "parse_loop (p @ q) (parse_loop p st) = parse_loop (p @ q) (?closed (i st + 1))"
        using unfold_p st1 by simp
      also have "\<dots> = parse_loop (p @ q)
          (parse_step ((p @ q) ! (i st + 1)) (charAt (p @ q) (i st + 1 + 1)) (?closed (i st + 1)))"
        using parse_loop_step [of "?closed (i st + 1)" "p @ q"] lt by simp
      also have "parse_step ((p @ q) ! (i st + 1)) (charAt (p @ q) (i st + 1 + 1)) (?closed (i st + 1)) =
          ?closed (i st + 2)"
        unfolding at using nq by (simp add: parse_step_def pushRow_def)
      finally show ?thesis
        using unfold_pq st1' by simp
    qed
  next
    case False
    then show ?thesis by (simp add: parse_loop_done)
  qed
qed

lemma parse_loop_ends_terminator:
  assumes "i st < length s" and "last s = LF \<or> last s = CR"
  shows "insideQuotes (parse_loop s st) \<or>
     (currentRow (parse_loop s st) = [] \<and> currentCell (parse_loop s st) = [])"
  using assms
proof (induction s st rule: parse_loop.induct)
  case (1 s st)
  let ?c = "s ! i st"
  let ?nc = "charAt s (i st + 1)"
  let ?st1 = "parse_step ?c ?nc st"
  have loop: "parse_loop s st = parse_loop s ?st1"
    using "1.prems"(1) by (simp add: parse_loop_step)
  show ?case
  proof (cases "i ?st1 < length s")
    case True
    then show ?thesis
      using "1.IH" [OF "1.prems"(1) True "1.prems"(2)] loop by simp
  next
    case False
    then have fin: "parse_loop s ?st1 = ?st1" by (simp add: parse_loop_done)
    have "insideQuotes ?st1 \<or> (currentRow ?st1 = [] \<and> currentCell ?st1 = [])"
    proof (cases "Suc (i st) < length s")
      case inner: True
      with False have two: "i ?st1 = i st + 2" and len: "Suc (Suc (i st)) = length s"
        using parse_step_i_le [of ?c ?nc st] by auto
      have "s ! Suc (i st) = last s"
        using len by (rule nth_eq_last)
      then have nc: "?nc = Some LF \<or> ?nc = Some CR"
        using inner "1.prems"(2) by (auto simp: charAt_def)
      show ?thesis
        using two nc by (auto simp: parse_step_def split: if_splits)
    next
      case outer: False
      with "1.prems"(1) have eq: "Suc (i st) = length s" by simp
      then have "?c = LF \<or> ?c = CR"
        using "1.prems"(2) by (simp add: nth_eq_last)
      moreover have "?nc = None"
        using eq by (simp add: charAt_def)
      ultimately show ?thesis
        by (auto simp: parse_step_def)
    qed
    then show ?thesis using loop fin by simp
  qed
qed

lemma state_after_terminated_prefix:
  assumes "u = LF \<or> u = CR" and "\<not> insideQuotes (parse_loop (a @ [u]) initial)"
  shows "parse_loop (a @ [u]) initial =
     \<lparr>rows = rows (parse_loop (a @ [u]) initial), currentRow = [], currentCell = [],
      insideQuotes = False, i = length (a @ [u])\<rparr>"
proof -
  let ?r = "parse_loop (a @ [u]) initial"
  have "insideQuotes ?r \<or> (currentRow ?r = [] \<and> currentCell ?r = [])"
    using assms(1) by (intro parse_loop_ends_terminator) (simp_all add: initial_def)
  moreover have "i ?r = length (a @ [u])"
    by (rule parse_loop_i) (simp add: initial_def)
  ultimately show ?thesis
    using assms(2) by (cases ?r) simp
qed

lemma parse_after_terminated_prefix:
  assumes "u = LF \<or> u = CR" and "\<not> insideQuotes (parse_loop (a @ [u]) initial)"
  shows "parseCSV (a @ u # q) =
     finish (parse_loop ((a @ [u]) @ q)
       \<lparr>rows = rows (parse_loop (a @ [u]) initial), currentRow = [], currentCell = [],
        insideQuotes = False, i = length (a @ [u])\<rparr>)"
proof -
  have "parse_loop ((a @ [u]) @ q) initial =
      parse_loop ((a @ [u]) @ q) (parse_loop (a @ [u]) initial)"
    using assms(1) by (intro parse_loop_prefix) (auto simp: initial_def)
  then show ?thesis
    using state_after_terminated_prefix [OF assms] by (simp add: parseCSV_def)
qed

lemma parseCSV_blank: "blankLine l \<Longrightarrow> parseCSV l = []"
  using blank_line_at_end [of initial "[]" l]
  by (simp add: parseCSV_def blankBuffers_def initial_def)

lemma parseCSV_blank_first_line:
  assumes "blankLine l" and "t = LF \<or> t = CR"
  shows "parseCSV (l @ t # b) = parseCSV b"
  using blank_line_skipped [OF assms, of "[]" b "[]"]
  by (simp add: parseCSV_def initial_def)

lemma parseCSV_blank_inner_line:
  assumes "blankLine l" and "t = LF \<or> t = CR"
    and "u = LF \<or> u = CR" and "\<not> insideQuotes (parse_loop (a @ [u]) initial)"
  shows "parseCSV (a @ u # l @ t # b) = parseCSV (a @ u # b)"
  using blank_line_skipped [OF assms(1,2), of "a @ [u]" b]
  by (simp add: parse_after_terminated_prefix [OF assms(3,4)])

lemma parseCSV_blank_last_line:
  assumes "blankLine l" and "u = LF \<or> u = CR"
    and "\<not> insideQuotes (parse_loop (a @ [u]) initial)"
  shows "parseCSV (a @ u # l) = parseCSV (a @ [u])"
proof -
  let ?st = "\<lparr>rows = rows (parse_loop (a @ [u]) initial), currentRow = [], currentCell = [],
        insideQuotes = False, i = length (a @ [u])\<rparr>"
  have "finish (parse_loop ((a @ [u]) @ l) ?st) = rows ?st"
    using assms(1) by (intro blank_line_at_end) (simp_all add: blankBuffers_def)
  moreover have "parseCSV (a @ [u]) = finish ?st"
    using state_after_terminated_prefix [OF assms(2,3)] by (simp add: parseCSV_def)
  ultimately show ?thesis
    using parse_after_terminated_prefix [OF assms(2,3), of l] by (simp add: finish_def)
qed

lemma pushRow_cases:
  "pushRow rs row = (if \<exists>cell\<in>set row. cell \<noteq> [] then rs @ [row] else rs)"
  by (simp add: pushRow_def list_ex_iff)

lemma rows_step_closing:
  assumes "(c = LF \<or> c = CR) \<and> \<not> insideQuotes st"
  shows "rows (parse_step c nc st) =
     (if \<exists>cell\<in>set (currentRow st @ [trim (currentCell st)]). cell \<noteq> []
      then rows st @ [currentRow st @ [trim (currentCell st)]] else rows st)"
  using assms by (auto simp: parse_step_def pushRow_cases)

lemma rows_step_other:
  assumes "\<not> ((c = LF \<or> c = CR) \<and> \<not> insideQuotes st)"
  shows "rows (parse_step c nc st) = rows st"
  using assms by (auto simp: parse_step_def)

lemma parseCSV_rows_nonblank:
  assumes "row \<in> set (parseCSV s)"
  shows "\<exists>cell\<in>set row. trim cell \<noteq> []"
proof -
  obtain cell where c: "cell \<in> set row" "cell \<noteq> []"
    using keptRows_parseCSV [of s] assms by (auto simp: keptRows_def)
  then have "trim cell = cell"
    using assms parseCSV_trimmed by blast
  with c have "trim cell \<noteq> []" by simp
  with c(1) show ?thesis by (rule rev_bexI)
qed

text \<open>
  Claim C3. A turn of the loop that closes a row (a line-feed or a carriage-return outside a
  quoted field) appends the row to the result exactly when one of its cells is non-empty, and
  no other turn changes the result; the statements after the loop follow the same rule. Hence
  every row of the parse result has a cell that is non-empty after trimming, and a line of
  commas and whitespace yields no row and no line of output: such a line alone parses to the
  empty table and converts to the empty string, and leaving it out, as first line, as a line
  after a line-feed or carriage-return that lies outside a quoted field, or as last line,
  changes neither the parse result nor the output.
\<close>

theorem C3_blank_rows_dropped:
  "(\<forall>row\<in>set (parseCSV s). \<exists>cell\<in>set row. trim cell \<noteq> []) \<and>
   ((char = LF \<or> char = CR) \<and> \<not> insideQuotes st \<longrightarrow>
      rows (parse_step char nextChar st) =
        (if \<exists>cell\<in>set (currentRow st @ [trim (currentCell st)]). cell \<noteq> []
         then rows st @ [currentRow st @ [trim (currentCell st)]] else rows st)) \<and>
   (\<not> ((char = LF \<or> char = CR) \<and> \<not> insideQuotes st) \<longrightarrow>
      rows (parse_step char nextChar st) = rows st) \<and>
   (finish st = rows st \<or>
      finish st = rows st @ [currentRow st @ [trim (currentCell st)]] \<and>
      (\<exists>cell\<in>set (currentRow st @ [trim (currentCell st)]). cell \<noteq> [])) \<and>
   (blankLine l \<longrightarrow>
      parseCSV l = [] \<and> csvToMarkdown l = [] \<and>
      (t = LF \<or> t = CR \<longrightarrow>
         parseCSV (l @ t # b) = parseCSV b \<and> csvToMarkdown (l @ t # b) = csvToMarkdown b) \<and>
      ((u = LF \<or> u = CR) \<and> \<not> insideQuotes (parse_loop (a @ [u]) initial) \<longrightarrow>
         (t = LF \<or> t = CR \<longrightarrow>
            parseCSV (a @ u # l @ t # b) = parseCSV (a @ u # b) \<and>
            csvToMarkdown (a @ u # l @ t # b) = csvToMarkdown (a @ u # b)) \<and>
         parseCSV (a @ u # l) = parseCSV (a @ [u]) \<and>
         csvToMarkdown (a @ u # l) = csvToMarkdown (a @ [u])))"
proof -
  have kept: "\<forall>row\<in>set (parseCSV s). \<exists>cell\<in>set row. trim cell \<noteq> []"
    using parseCSV_rows_nonblank by blast
  have closing: "(char = LF \<or> char = CR) \<and> \<not> insideQuotes st \<longrightarrow>
      rows (parse_step char nextChar st) =
        (if \<exists>cell\<in>set (currentRow st @ [trim (currentCell st)]). cell \<noteq> []
         then rows st @ [currentRow st @ [trim (currentCell st)]] else rows st)"
    using rows_step_closing by blast
  have other: "\<not> ((char = LF \<or> char = CR) \<and> \<not> insideQuotes st) \<longrightarrow>
      rows (parse_step char nextChar st) = rows st"
    using rows_step_other by blast
  have fin: "finish st = rows st \<or>
      finish st = rows st @ [currentRow st @ [trim (currentCell st)]] \<and>
      (\<exists>cell\<in>set (currentRow st @ [trim (currentCell st)]). cell \<noteq> [])"
    by (simp add: finish_def pushRow_cases)
  have blank: "blankLine l \<longrightarrow>
      parseCSV l = [] \<and> csvToMarkdown l = [] \<and>
      (t = LF \<or> t = CR \<longrightarrow>
         parseCSV (l @ t # b) = parseCSV b \<and> csvToMarkdown (l @ t # b) = csvToMarkdown b) \<and>
      ((u = LF \<or> u = CR) \<and> \<not> insideQuotes (parse_loop (a @ [u]) initial) \<longrightarrow>
         (t = LF \<or> t = CR \<longrightarrow>
            parseCSV (a @ u # l @ t # b) = parseCSV (a @ u # b) \<and>
            csvToMarkdown (a @ u # l @ t # b) = csvToMarkdown (a @ u # b)) \<and>
         parseCSV (a @ u # l) = parseCSV (a @ [u]) \<and>
         csvToMarkdown (a @ u # l) = csvToMarkdown (a @ [u]))"
  proof
    assume l: "blankLine l"
    have 1: "parseCSV l = []" using l by (rule parseCSV_blank)
    have 2: "t = LF \<or> t = CR \<longrightarrow> parseCSV (l @ t # b) = parseCSV b"
      using l parseCSV_blank_first_line by blast
    have 3: "(u = LF \<or> u = CR) \<and> \<not> insideQuotes (parse_loop (a @ [u]) initial) \<longrightarrow>
        t = LF \<or> t = CR \<longrightarrow> parseCSV (a @ u # l @ t # b) = parseCSV (a @ u # b)"
      using l parseCSV_blank_inner_line by blast
    have 4: "(u = LF \<or> u = CR) \<and> \<not> insideQuotes (parse_loop (a @ [u]) initial) \<longrightarrow>
        parseCSV (a @ u # l) = parseCSV (a @ [u])"
      using l parseCSV_blank_last_line by blast
    show "parseCSV l = [] \<and> csvToMarkdown l = [] \<and>
      (t = LF \<or> t = CR \<longrightarrow>
         parseCSV (l @ t # b) = parseCSV b \<and> csvToMarkdown (l @ t # b) = csvToMarkdown b) \<and>
      ((u = LF \<or> u = CR) \<and> \<not> insideQuotes (parse_loop (a @ [u]) initial) \<longrightarrow>
         (t = LF \<or> t = CR \<longrightarrow>
            parseCSV (a @ u # l @ t # b) = parseCSV (a @ u # b) \<and>
            csvToMarkdown (a @ u # l @ t # b) = csvToMarkdown (a @ u # b)) \<and>
         parseCSV (a @ u # l) = parseCSV (a @ [u]) \<and>
         csvToMarkdown (a @ u # l) = csvToMarkdown (a @ [u]))"
      using 1 2 3 4 by (simp add: csvToMarkdown_def convertToMarkdownTable_def)
  qed
  from kept closing other fin blank show ?thesis
    by (intro conjI)
qed

theorem C3_blank_rows_dropped_witness:
  "parseCSV (js '' , ,'') = [] \<and>
   parseCSV (js '' , ,'' @ CR # js ''y'') = [[js ''y'']] \<and>
   parseCSV (js ''x'' @ LF # js '' , ,'' @ LF # js ''y'') = [[js ''x''], [js ''y'']] \<and>
   csvToMarkdown (js ''x'' @ LF # js '' , ,'' @ LF # js ''y'') =
     csvToMarkdown (js ''x'' @ LF # js ''y'') \<and>
   parseCSV (js ''x'' @ CR # js '' , ,'') = [[js ''x'']] \<and>
   (\<exists>cell\<in>set [js ''x'']. trim cell \<noteq> [])"
proof -
  let ?l = "js '' , ,''"
  have l: "blankLine ?l"
    by (simp add: blankLine_def js_def)
  have q: "\<not> insideQuotes (parse_loop (js ''x'' @ [LF]) initial)"
    by code_simp
  have q': "\<not> insideQuotes (parse_loop (js ''x'' @ [CR]) initial)"
    by code_simp
  have y: "parseCSV (js ''y'') = [[js ''y'']]"
    by code_simp
  have xy: "parseCSV (js ''x'' @ LF # js ''y'') = [[js ''x''], [js ''y'']]"
    by code_simp
  have x: "parseCSV (js ''x'' @ [LF]) = [[js ''x'']]"
    by code_simp
  have x': "parseCSV (js ''x'' @ [CR]) = [[js ''x'']]"
    by code_simp
  note inst = C3_blank_rows_dropped [where l = ?l and a = "js ''x''" and b = "js ''y''"]
  have 1: "parseCSV ?l = []"
    using inst l by blast
  have 2: "parseCSV (?l @ CR # js ''y'') = [[js ''y'']]"
    using inst [where t = CR] l y by simp
  have 3: "parseCSV (js ''x'' @ LF # ?l @ LF # js ''y'') = [[js ''x''], [js ''y'']]"
    using inst [where t = LF and u = LF] l q xy by simp
  have 4: "csvToMarkdown (js ''x'' @ LF # ?l @ LF # js ''y'') = csvToMarkdown (js ''x'' @ LF # js ''y'')"
    using inst [where t = LF and u = LF] l q by simp
  have 5: "parseCSV (js ''x'' @ CR # ?l) = [[js ''x'']]"
    using inst [where u = CR] l q' x' by simp
  have "\<forall>row\<in>set (parseCSV (js ''x'' @ [LF])). \<exists>cell\<in>set row. trim cell \<noteq> []"
    using C3_blank_rows_dropped [where s = "js ''x'' @ [LF]"] by blast
  then have 6: "\<exists>cell\<in>set [js ''x'']. trim cell \<noteq> []"
    unfolding x by simp
  from 1 2 3 4 5 6 show ?thesis
    by (intro conjI)
qed

section \<open>Column widths\<close>

lemma fold_max_Max: "fold max xs (a::nat) = Max (insert a (set xs))"
  using Max.set_eq_fold [of a xs] by simp

lemma mathMax_Max: "xs \<noteq> [] \<Longrightarrow> mathMax xs = Max (set xs)"
  by (cases xs) (simp_all add: fold_max_Max)

lemma columnCount_Max: "tbl \<noteq> [] \<Longrightarrow> columnCount tbl = Max (length ` set tbl)"
  by (simp add: columnCount_def mathMax_Max)

lemma length_le_columnCount: "row \<in> set tbl \<Longrightarrow> length row \<le> columnCount tbl"
proof -
  assume r: "row \<in> set tbl"
  then have "tbl \<noteq> []" by auto
  then show ?thesis using r by (simp add: columnCount_Max)
qed

lemma normalizeRow_eq: "normalizeRow n row = row @ replicate (n - length row) []"
proof (induction n row rule: normalizeRow.induct)
  case (1 n row)
  show ?case
  proof (cases "length row < n")
    case True
    then have "normalizeRow n row = (row @ [[]]) @ replicate (n - length (row @ [[]])) []"
      using "1.IH" by (simp add: normalizeRow.simps [of n row])
    also have "\<dots> = row @ replicate (Suc (n - Suc (length row))) []"
      by (simp add: replicate_append_same)
    also have "Suc (n - Suc (length row)) = n - length row"
      using True by simp
    finally show ?thesis .
  next
    case False
    then show ?thesis by (simp add: normalizeRow.simps [of n row])
  qed
qed

lemma normalizedRows_eq:
  "normalizedRows tbl = map (\<lambda>row. row @ replicate (columnCount tbl - length row) []) tbl"
  by (simp add: normalizedRows_def normalizeRow_eq)

lemma length_normalizedRows [simp]: "length (normalizedRows tbl) = length tbl"
  by (simp add: normalizedRows_def)

lemma length_normalizeRow:
  "nrow \<in> set (normalizedRows tbl) \<Longrightarrow> length nrow = columnCount tbl"
  using length_le_columnCount by (auto simp: normalizedRows_eq)

lemma measureRow_snoc:
  "measureRow ws (row @ [c]) =
     (measureRow ws row)[length row := max (measureRow ws row ! length row) (length c)]"
  by (simp add: measureRow_def)

lemma length_measureRow [simp]: "length (measureRow ws row) = length ws"
  by (induction row rule: rev_induct) (simp_all add: measureRow_snoc, simp add: measureRow_def)

lemma measureRow_Nil [simp]: "measureRow ws [] = ws"
  by (simp add: measureRow_def)

lemma measureRow_nth_beyond: "length row \<le> j \<Longrightarrow> measureRow ws row ! j = ws ! j"
  by (induction row rule: rev_induct) (simp_all add: measureRow_snoc)

lemma measureRow_nth:
  assumes "j < length ws" and "length row \<le> length ws"
  shows "measureRow ws row ! j = (if j < length row then max (ws ! j) (length (row ! j)) else ws ! j)"
  using assms(2)
proof (induction row rule: rev_induct)
  case Nil
  then show ?case by simp
next
  case (snoc c row)
  then have IH: "measureRow ws row ! j =
      (if j < length row then max (ws ! j) (length (row ! j)) else ws ! j)"
    by simp
  have at: "measureRow ws row ! length row = ws ! length row"
    by (simp add: measureRow_nth_beyond)
  show ?case
  proof (cases "j = length row")
    case True
    then show ?thesis
      using assms(1) at by (simp add: measureRow_snoc)
  next
    case False
    then show ?thesis
      using IH by (simp add: measureRow_snoc nth_append)
  qed
qed

lemma fold_measureRow_length:
  "length (fold (\<lambda>row ws. measureRow ws row) rs ws) = length ws"
  by (induction rs arbitrary: ws) simp_all

lemma fold_measureRow_nth:
  assumes "j < length ws" and "\<forall>row\<in>set rs. length row = length ws"
  shows "fold (\<lambda>row ws. measureRow ws row) rs ws ! j =
     fold max (map (\<lambda>row. length (row ! j)) rs) (ws ! j)"
  using assms
proof (induction rs arbitrary: ws)
  case Nil
  then show ?case by simp
next
  case (Cons r rs)
  have "measureRow ws r ! j = max (ws ! j) (length (r ! j))"
    using Cons.prems by (simp add: measureRow_nth)
  moreover have "fold (\<lambda>row ws. measureRow ws row) rs (measureRow ws r) ! j =
      fold max (map (\<lambda>row. length (row ! j)) rs) (measureRow ws r ! j)"
    using Cons.prems by (intro Cons.IH) simp_all
  ultimately show ?case by (simp add: max.commute)
qed

lemma length_measuredWidths [simp]: "length (measuredWidths tbl) = columnCount tbl"
  by (simp add: measuredWidths_def fold_measureRow_length)

lemma measuredWidths_nth:
  assumes "tbl \<noteq> []" and "j < columnCount tbl"
  shows "measuredWidths tbl ! j = Max ((\<lambda>row. length (row ! j)) ` set (normalizedRows tbl))"
proof -
  have "measuredWidths tbl ! j =
      fold max (map (\<lambda>row. length (row ! j)) (normalizedRows tbl)) (replicate (columnCount tbl) 0 ! j)"
    unfolding measuredWidths_def using assms(2)
    by (intro fold_measureRow_nth) (simp_all add: length_normalizeRow)
  also have "\<dots> = Max (insert 0 ((\<lambda>row. length (row ! j)) ` set (normalizedRows tbl)))"
    using assms(2) by (simp add: fold_max_Max)
  also have "\<dots> = Max ((\<lambda>row. length (row ! j)) ` set (normalizedRows tbl))"
  proof -
    have ne: "(\<lambda>row. length (row ! j)) ` set (normalizedRows tbl) \<noteq> {}"
      using assms(1) by (simp add: normalizedRows_def)
    show ?thesis
      using ne by (subst Max_insert) simp_all
  qed
  finally show ?thesis .
qed

lemma clamp_fold:
  assumes "n \<le> length ws"
  shows "length (fold (\<lambda>index ws. ws[index := max (ws ! index) 3]) [0..<n] ws) = length ws \<and>
     (\<forall>j<length ws. fold (\<lambda>index ws. ws[index := max (ws ! index) (3::nat)]) [0..<n] ws ! j =
        (if j < n then max (ws ! j) 3 else ws ! j))"
  using assms
proof (induction n)
  case 0
  then show ?case by simp
next
  case (Suc n)
  then show ?case by (auto simp: nth_list_update)
qed

lemma length_columnWidths [simp]: "length (columnWidths tbl) = columnCount tbl"
  using clamp_fold [of "length (measuredWidths tbl)" "measuredWidths tbl"]
  by (simp add: columnWidths_def Let_def)

lemma columnWidths_clamp:
  "j < columnCount tbl \<Longrightarrow> columnWidths tbl ! j = max (measuredWidths tbl ! j) 3"
  using clamp_fold [of "length (measuredWidths tbl)" "measuredWidths tbl"]
  by (simp add: columnWidths_def Let_def)

lemma columnWidths_nth:
  assumes "tbl \<noteq> []" and "j < columnCount tbl"
  shows "columnWidths tbl ! j =
     max (Max ((\<lambda>row. length (row ! j)) ` set (normalizedRows tbl))) 3"
  using assms by (simp add: columnWidths_clamp measuredWidths_nth)

lemma columnWidths_ge_3: "w \<in> set (columnWidths tbl) \<Longrightarrow> 3 \<le> w"
  by (auto simp: in_set_conv_nth columnWidths_clamp)


text \<open>
  Claim C7. For a table with at least one row, \<open>columnCount\<close> is the greatest row length,
  every normalized row is the row followed by empty cells up to \<open>columnCount\<close> cells, and there
  is one column width per column: the greatest length of that column's cell over the
  normalized rows, raised to 3 when it is less. So every width, and with it every run of dashes
  of the separator row, is at least 3. For \<open>Name,Age\<close>, \<open>John,25\<close>, \<open>Jane,30\<close> the widths are
  4 and 3.
\<close>

theorem C7_column_widths:
  "(tbl \<noteq> [] \<longrightarrow>
      columnCount tbl = Max (length ` set tbl) \<and>
      normalizedRows tbl = map (\<lambda>row. row @ replicate (columnCount tbl - length row) []) tbl \<and>
      (\<forall>nrow\<in>set (normalizedRows tbl). length nrow = columnCount tbl) \<and>
      length (columnWidths tbl) = columnCount tbl \<and>
      (\<forall>j<columnCount tbl. columnWidths tbl ! j =
         max (Max ((\<lambda>nrow. length (nrow ! j)) ` set (normalizedRows tbl))) 3) \<and>
      (\<forall>width\<in>set (columnWidths tbl). 3 \<le> width) \<and>
      separatorRow tbl =
        js ''| '' @ join (js '' | '') (map (\<lambda>width. replicate width DASH) (columnWidths tbl)) @
        js '' |'' \<and>
      (\<forall>run\<in>set (map (\<lambda>width. replicate width DASH) (columnWidths tbl)). 3 \<le> length run)) \<and>
   columnWidths (parseCSV (js ''Name,Age'' @ LF # js ''John,25'' @ LF # js ''Jane,30'')) = [4, 3]"
proof -
  have ex: "columnWidths (parseCSV (js ''Name,Age'' @ LF # js ''John,25'' @ LF # js ''Jane,30'')) = [4, 3]"
    by code_simp
  have gen: "tbl \<noteq> [] \<longrightarrow>
      columnCount tbl = Max (length ` set tbl) \<and>
      normalizedRows tbl = map (\<lambda>row. row @ replicate (columnCount tbl - length row) []) tbl \<and>
      (\<forall>nrow\<in>set (normalizedRows tbl). length nrow = columnCount tbl) \<and>
      length (columnWidths tbl) = columnCount tbl \<and>
      (\<forall>j<columnCount tbl. columnWidths tbl ! j =
         max (Max ((\<lambda>nrow. length (nrow ! j)) ` set (normalizedRows tbl))) 3) \<and>
      (\<forall>width\<in>set (columnWidths tbl). 3 \<le> width) \<and>
      separatorRow tbl =
        js ''| '' @ join (js '' | '') (map (\<lambda>width. replicate width DASH) (columnWidths tbl)) @
        js '' |'' \<and>
      (\<forall>run\<in>set (map (\<lambda>width. replicate width DASH) (columnWidths tbl)). 3 \<le> length run)"
  proof
    assume ne: "tbl \<noteq> []"
    have 1: "columnCount tbl = Max (length ` set tbl)"
      using ne by (rule columnCount_Max)
    have 2: "normalizedRows tbl = map (\<lambda>row. row @ replicate (columnCount tbl - length row) []) tbl"
      by (rule normalizedRows_eq)
    have 3: "\<forall>nrow\<in>set (normalizedRows tbl). length nrow = columnCount tbl"
      using length_normalizeRow by blast
    have 4: "length (columnWidths tbl) = columnCount tbl"
      by simp
    have 5: "\<forall>j<columnCount tbl. columnWidths tbl ! j =
         max (Max ((\<lambda>nrow. length (nrow ! j)) ` set (normalizedRows tbl))) 3"
      using ne columnWidths_nth by blast
    have 6: "\<forall>width\<in>set (columnWidths tbl). 3 \<le> width"
      using columnWidths_ge_3 by blast
    have 7: "separatorRow tbl =
        js ''| '' @ join (js '' | '') (map (\<lambda>width. replicate width DASH) (columnWidths tbl)) @
        js '' |''"
      by (simp only: separatorRow_def)
    have 8: "\<forall>run\<in>set (map (\<lambda>width. replicate width DASH) (columnWidths tbl)). 3 \<le> length run"
      using columnWidths_ge_3 by auto
    from 1 2 3 4 5 6 7 8 show "columnCount tbl = Max (length ` set tbl) \<and>
      normalizedRows tbl = map (\<lambda>row. row @ replicate (columnCount tbl - length row) []) tbl \<and>
      (\<forall>nrow\<in>set (normalizedRows tbl). length nrow = columnCount tbl) \<and>
      length (columnWidths tbl) = columnCount tbl \<and>
      (\<forall>j<columnCount tbl. columnWidths tbl ! j =
         max (Max ((\<lambda>nrow. length (nrow ! j)) ` set (normalizedRows tbl))) 3) \<and>
      (\<forall>width\<in>set (columnWidths tbl). 3 \<le> width) \<and>
      separatorRow tbl =
        js ''| '' @ join (js '' | '') (map (\<lambda>width. replicate width DASH) (columnWidths tbl)) @
        js '' |'' \<and>
      (\<forall>run\<in>set (map (\<lambda>width. replicate width DASH) (columnWidths tbl)). 3 \<le> length run)"
      by (intro conjI)
  qed
  from gen ex show ?thesis by (rule conjI)
qed

theorem C7_column_widths_witness:
  "columnCount [[js ''Name'', js ''Age''], [js ''Jo'']] = 2 \<and>
   normalizedRows [[js ''Name'', js ''Age''], [js ''Jo'']] =
     [[js ''Name'', js ''Age''], [js ''Jo'', []]] \<and>
   columnWidths [[js ''Name'', js ''Age''], [js ''Jo'']] ! 0 = 4 \<and>
   length (columnWidths [[js ''Name'', js ''Age''], [js ''Jo'']]) = 2"
proof -
  let ?t = "[[js ''Name'', js ''Age''], [js ''Jo'']]"
  have ne: "?t \<noteq> []" by simp
  note inst = C7_column_widths [of ?t, THEN conjunct1, rule_format, OF ne]
  have cc: "columnCount ?t = 2"
    using inst by (simp add: js_def)
  have nr: "normalizedRows ?t = [[js ''Name'', js ''Age''], [js ''Jo'', []]]"
    using inst cc by (simp add: js_def)
  have "columnWidths ?t ! 0 =
      max (Max ((\<lambda>nrow. length (nrow ! 0)) ` set (normalizedRows ?t))) 3"
    using inst cc by simp
  then have w: "columnWidths ?t ! 0 = 4"
    unfolding nr by (simp add: js_def)
  have len: "length (columnWidths ?t) = 2"
    using inst cc by simp
  from cc nr w len show ?thesis by (intro conjI)
qed

section \<open>Lines of the output\<close>

lemma js_bar_open [simp]: "js ''| '' = [PIPE, SPACE]"
  by (simp add: js_def)

lemma js_bar_close [simp]: "js '' |'' = [SPACE, PIPE]"
  by (simp add: js_def)

lemma js_bar_mid [simp]: "js '' | '' = [SPACE, PIPE, SPACE]"
  by (simp add: js_def)






lemma padEnd_eq: "padEnd s n = s @ replicate (n - length s) SPACE"
  by (simp add: padEnd_def)



lemma paddedCells_eq:
  "map (\<lambda>(cell, index). padEnd cell (ws ! index)) (zip row [0..<length row]) =
     map (\<lambda>j. padEnd (row ! j) (ws ! j)) [0..<length row]"
  by (rule nth_equalityI) simp_all

lemma formatRow_eq:
  "formatRow ws row =
     [PIPE, SPACE] @ join [SPACE, PIPE, SPACE] (map (\<lambda>j. padEnd (row ! j) (ws ! j)) [0..<length row]) @
     [SPACE, PIPE]"
  by (simp add: formatRow_def paddedCells_eq)

lemma separatorRow_eq:
  "separatorRow tbl =
     [PIPE, SPACE] @ join [SPACE, PIPE, SPACE] (map (\<lambda>width. replicate width DASH) (columnWidths tbl)) @
     [SPACE, PIPE]"
  by (simp add: separatorRow_def)






lemma dataRows_eq:
  "dataRows tbl = map (formatRow (columnWidths tbl)) (tl (normalizedRows tbl))"
  by (rule nth_equalityI) (simp_all add: dataRows_def nth_tl)

















section \<open>The shape of the output\<close>










lemma convertToMarkdownTable_begins:
  assumes "tbl \<noteq> []"
  shows "\<exists>rest. convertToMarkdownTable tbl = PIPE # SPACE # rest"
proof -
  have "convertToMarkdownTable tbl = headerRow tbl @ [LF] @ join [LF] (separatorRow tbl # dataRows tbl)"
    using assms by (simp add: convertToMarkdownTable_def markdownRows_def)
  then show ?thesis
    by (simp add: headerRow_def formatRow_eq)
qed





section \<open>The entry point\<close>

lemma convertToMarkdownTable_not_blank:
  assumes "tbl \<noteq> []"
  shows "convertToMarkdownTable tbl \<noteq> [] \<and> trim (convertToMarkdownTable tbl) \<noteq> []"
proof -
  obtain rest where r: "convertToMarkdownTable tbl = PIPE # SPACE # rest"
    using convertToMarkdownTable_begins [OF assms] by blast
  then have "\<exists>c\<in>set (convertToMarkdownTable tbl). \<not> isWhiteSpace c"
    by simp
  then show ?thesis
    using r by (simp add: trim_eq_Nil_iff)
qed

text \<open>
  Claim C1, for inputs of which the parser keeps a row. The entry point rejects an input whose trim is empty; for any other
  input it reports the output failure exactly when the parser keeps no row, and otherwise
  hands on the converted table. When the parser keeps a row the output begins with a pipe, so
  it is neither empty nor whitespace only; when it keeps none the output is the empty string.
\<close>

theorem C1_output_validation:
  "convertCSVToMarkdown s =
     (if trim s = [] then Inl InputEmpty
      else if parseCSV s = [] then Inl OutputEmpty
      else Inr (csvToMarkdown s)) \<and>
   (parseCSV s \<noteq> [] \<longrightarrow> csvToMarkdown s \<noteq> [] \<and> trim (csvToMarkdown s) \<noteq> []) \<and>
   (parseCSV s = [] \<longrightarrow> csvToMarkdown s = [])"
proof -
  have a: "parseCSV s \<noteq> [] \<longrightarrow> csvToMarkdown s \<noteq> [] \<and> trim (csvToMarkdown s) \<noteq> []"
    using convertToMarkdownTable_not_blank [of "parseCSV s"] by (simp add: csvToMarkdown_def)
  have b: "parseCSV s = [] \<longrightarrow> csvToMarkdown s = []"
    by (simp add: csvToMarkdown_def convertToMarkdownTable_def)
  have "convertCSVToMarkdown s =
     (if trim s = [] then Inl InputEmpty
      else if parseCSV s = [] then Inl OutputEmpty
      else Inr (csvToMarkdown s))"
  proof (cases "parseCSV s = []")
    case True
    then show ?thesis using b by (auto simp: convertCSVToMarkdown_def Let_def)
  next
    case False
    then show ?thesis using a by (auto simp: convertCSVToMarkdown_def Let_def)
  qed
  with a b show ?thesis by (intro conjI)
qed

theorem C1_output_validation_witness:
  "convertCSVToMarkdown (js ''a'') = Inr (js ''| a   |'' @ [LF] @ js ''| --- |'') \<and>
   trim (csvToMarkdown (js ''a'')) \<noteq> []"
proof -
  have t: "trim (js ''a'') \<noteq> []" by code_simp
  have p: "parseCSV (js ''a'') = [[js ''a'']]" by code_simp
  have c: "csvToMarkdown (js ''a'') = js ''| a   |'' @ [LF] @ js ''| --- |''" by code_simp
  have ne: "parseCSV (js ''a'') \<noteq> []" by (simp add: p)
  have 1: "convertCSVToMarkdown (js ''a'') = Inr (js ''| a   |'' @ [LF] @ js ''| --- |'')"
    using C1_output_validation [of "js ''a''"] t ne c by simp
  have 2: "trim (csvToMarkdown (js ''a'')) \<noteq> []"
    using C1_output_validation [of "js ''a''"] ne by blast
  from 1 2 show ?thesis by (rule conjI)
qed

text \<open>
  The input of a single comma passes the input validation, parses to no row and converts to
  the empty string: the entry point reports the output failure.
\<close>

theorem C1_all_rows_dropped_counterexample:
  "trim (js '','') \<noteq> [] \<and> csvToMarkdown (js '','') = [] \<and>
   convertCSVToMarkdown (js '','') = Inl OutputEmpty"
  by code_simp

section \<open>Round trip of cell content\<close>

lemma scan_plain:
  assumes "i st = length p" and "plainText v"
  shows "parse_loop (p @ v @ q) st =
     parse_loop (p @ v @ q) (st\<lparr>currentCell := currentCell st @ v, i := i st + length v\<rparr>)"
  using assms by (intro scan_literal) (auto simp: plainText_def)

lemma scan_plain_cells:
  assumes "cells \<noteq> []" and "\<forall>c\<in>set cells. plainText c"
    and "i st = length p" and "\<not> insideQuotes st" and "currentCell st = []"
  shows "parse_loop (p @ join [COMMA] cells @ q) st =
     parse_loop (p @ join [COMMA] cells @ q)
       (st\<lparr>currentRow := currentRow st @ map trim (butlast cells), currentCell := last cells,
           i := i st + length (join [COMMA] cells)\<rparr>)"
  using assms
proof (induction "[COMMA]" cells arbitrary: p st rule: join.induct)
  case 1
  then show ?case by simp
next
  case (2 x)
  have "parse_loop (p @ x @ q) st =
      parse_loop (p @ x @ q) (st\<lparr>currentCell := currentCell st @ x, i := i st + length x\<rparr>)"
    using "2.prems" by (intro scan_plain) simp_all
  then show ?case using "2.prems" by simp
next
  case (3 x y ys)
  let ?s = "p @ join [COMMA] (x # y # ys) @ q"
  let ?rest = "join [COMMA] (y # ys)"
  have s: "?s = p @ x @ (COMMA # ?rest @ q)" by simp
  let ?st1 = "st\<lparr>currentCell := currentCell st @ x, i := i st + length x\<rparr>"
  let ?st2 = "st\<lparr>currentRow := currentRow st @ [trim x], currentCell := [],
        i := i st + length x + 1\<rparr>"
  have "parse_loop ?s st = parse_loop ?s ?st1"
    unfolding s using "3.prems" by (intro scan_plain) simp_all
  also have "\<dots> = parse_loop ?s (parse_step (?s ! i ?st1) (charAt ?s (i ?st1 + 1)) ?st1)"
    using "3.prems"(3) by (intro parse_loop_step) simp
  also have "?s ! i ?st1 = COMMA"
    using "3.prems"(3) by (simp add: nth_append)
  also have "parse_step COMMA (charAt ?s (i ?st1 + 1)) ?st1 = ?st2"
    using "3.prems"(4,5) by (simp add: parse_step_def)
  also have "parse_loop ?s ?st2 = parse_loop ((p @ x @ [COMMA]) @ ?rest @ q) ?st2"
    by simp
  also have "\<dots> = parse_loop ((p @ x @ [COMMA]) @ ?rest @ q)
      (?st2\<lparr>currentRow := currentRow ?st2 @ map trim (butlast (y # ys)),
            currentCell := last (y # ys), i := i ?st2 + length ?rest\<rparr>)"
    using "3.prems" by (intro "3.hyps") simp_all
  also have "?st2\<lparr>currentRow := currentRow ?st2 @ map trim (butlast (y # ys)),
            currentCell := last (y # ys), i := i ?st2 + length ?rest\<rparr> =
      st\<lparr>currentRow := currentRow st @ map trim (butlast (x # y # ys)),
         currentCell := last (x # y # ys), i := i st + length (join [COMMA] (x # y # ys))\<rparr>"
    by simp
  also have "(p @ x @ [COMMA]) @ ?rest @ q = ?s"
    by simp
  finally show ?case .
qed

lemma list_ex_trimmed:
  "list_ex (\<lambda>cell. cell \<noteq> []) (map trim cells) \<longleftrightarrow> (\<exists>c\<in>set cells. trim c \<noteq> [])"
  by (simp add: list_ex_iff)

lemma map_trim_butlast_last: "cells \<noteq> [] \<Longrightarrow> map trim (butlast cells) @ [trim (last cells)] = map trim cells"
  by (metis append_butlast_last_id list.simps(8,9) map_append)

lemma parseCSV_two_plain_lines:
  assumes hs: "hs \<noteq> []" "\<forall>c\<in>set hs. plainText c" "\<exists>c\<in>set hs. trim c \<noteq> []"
    and vs: "vs \<noteq> []" "\<forall>c\<in>set vs. plainText c" "\<exists>c\<in>set vs. trim c \<noteq> []"
  shows "parseCSV (join [COMMA] hs @ LF # join [COMMA] vs) = [map trim hs, map trim vs]"
proof -
  let ?h = "join [COMMA] hs" and ?v = "join [COMMA] vs"
  let ?s = "?h @ LF # ?v"
  let ?st1 = "\<lparr>rows = [], currentRow = map trim (butlast hs), currentCell = last hs,
      insideQuotes = False, i = length ?h\<rparr>"
  let ?st2 = "\<lparr>rows = [map trim hs], currentRow = [], currentCell = [],
      insideQuotes = False, i = length ?h + 1\<rparr>"
  let ?st3 = "\<lparr>rows = [map trim hs], currentRow = map trim (butlast vs), currentCell = last vs,
      insideQuotes = False, i = length ?s\<rparr>"
  have "parse_loop ([] @ ?h @ LF # ?v) initial =
      parse_loop ([] @ ?h @ LF # ?v)
        (initial\<lparr>currentRow := currentRow initial @ map trim (butlast hs), currentCell := last hs,
           i := i initial + length ?h\<rparr>)"
    using hs(1,2) by (intro scan_plain_cells) (simp_all add: initial_def)
  then have "parse_loop ?s initial = parse_loop ?s ?st1"
    by (simp add: initial_def)
  also have "\<dots> = parse_loop ?s (parse_step (?s ! i ?st1) (charAt ?s (i ?st1 + 1)) ?st1)"
    by (intro parse_loop_step) simp
  also have "?s ! i ?st1 = LF"
    by (simp add: nth_append)
  also have "parse_step LF (charAt ?s (i ?st1 + 1)) ?st1 = ?st2"
    using hs(1,3) by (simp add: parse_step_def pushRow_def map_trim_butlast_last list_ex_trimmed)
  also have "parse_loop ?s ?st2 = parse_loop ((?h @ [LF]) @ ?v @ []) ?st2"
    by simp
  also have "\<dots> = parse_loop ((?h @ [LF]) @ ?v @ [])
      (?st2\<lparr>currentRow := currentRow ?st2 @ map trim (butlast vs), currentCell := last vs,
           i := i ?st2 + length ?v\<rparr>)"
    using vs(1,2) by (intro scan_plain_cells) simp_all
  also have "\<dots> = parse_loop ?s ?st3"
    by simp
  also have "\<dots> = ?st3"
    by (intro parse_loop_done) simp
  finally have loop: "parse_loop ?s initial = ?st3" .
  have buf: "last vs \<noteq> [] \<or> Suc 0 < length vs"
  proof (cases "butlast vs = []")
    case True
    then have one: "vs = [last vs]"
      using vs(1) by (metis append_butlast_last_id append_Nil)
    obtain c where c: "c \<in> set vs" "trim c \<noteq> []"
      using vs(3) by blast
    have "c = last vs"
      using c(1) one by (metis set_ConsD empty_set empty_iff)
    then have "trim (last vs) \<noteq> []"
      using c(2) by simp
    then show ?thesis by auto
  next
    case False
    then have "Suc 0 < length vs"
      by (cases vs rule: rev_cases) (auto simp: Suc_lessI)
    then show ?thesis by simp
  qed
  show ?thesis
    unfolding parseCSV_def loop
    using buf vs(1,3) by (simp add: finish_def pushRow_def map_trim_butlast_last list_ex_trimmed)
qed

lemma two_row_output:
  "convertToMarkdownTable [r1, r2] =
     join [LF] [headerRow [r1, r2], separatorRow [r1, r2],
       formatRow (columnWidths [r1, r2]) (r2 @ replicate (columnCount [r1, r2] - length r2) [])]"
  by (simp add: convertToMarkdownTable_def markdownRows_def dataRows_eq normalizedRows_eq)

lemma formatRow_slots:
  assumes "length row = n"
  shows "formatRow ws row =
     js ''| '' @ join (js '' | '') (map (\<lambda>j. padEnd (row ! j) (ws ! j)) [0..<n]) @ js '' |''"
  using assms by (simp add: formatRow_eq)

lemma one_column_widths:
  "columnWidths [[a], [b]] = [max (max (length a) (length b)) 3]"
proof -
  have cc: "columnCount [[a], [b]] = 1"
    by (simp add: columnCount_def)
  have nr: "normalizedRows [[a], [b]] = [[a], [b]]"
    by (simp add: normalizedRows_eq cc)
  have "length (columnWidths [[a], [b]]) = 1"
    by (simp add: cc)
  then have "columnWidths [[a], [b]] = [columnWidths [[a], [b]] ! 0]"
    by (cases "columnWidths [[a], [b]]") simp_all
  moreover have "columnWidths [[a], [b]] ! 0 = max (max (length a) (length b)) 3"
    by (simp add: columnWidths_nth cc nr)
  ultimately show ?thesis by simp
qed

lemma one_column_output:
  "convertToMarkdownTable [[a], [b]] =
     js ''| '' @ padEnd a (max (max (length a) (length b)) 3) @ js '' |'' @ [LF] @
     js ''| '' @ replicate (max (max (length a) (length b)) 3) DASH @ js '' |'' @ [LF] @
     js ''| '' @ padEnd b (max (max (length a) (length b)) 3) @ js '' |''"
proof -
  have cc: "columnCount [[a], [b]] = 1"
    by (simp add: columnCount_def)
  have nr: "normalizedRows [[a], [b]] = [[a], [b]]"
    by (simp add: normalizedRows_eq cc)
  show ?thesis
    by (simp add: two_row_output cc headerRow_def nr separatorRow_eq formatRow_eq one_column_widths)
qed

text \<open>
  Claim C9. Take a header line and a data line, each made of one or more cells joined by
  commas, where no cell contains a comma, a double-quote, a line-feed or a carriage-return and
  each line has a cell that is not blank. The two lines, separated by a line-feed, parse to the
  two rows of the trimmed cells, and the output is the header row, the separator row and one
  data row, in which the slot of every data cell \<open>v\<close> holds \<open>trim v\<close> unchanged, followed only
  by the spaces that pad it to the width of its column. With one cell per line the output is
  written out in full.
\<close>

theorem C9_round_trip:
  assumes "hs \<noteq> []" and "\<forall>c\<in>set hs. plainText c" and "\<exists>c\<in>set hs. trim c \<noteq> []"
    and "vs \<noteq> []" and "\<forall>c\<in>set vs. plainText c" and "\<exists>c\<in>set vs. trim c \<noteq> []"
  shows "parseCSV (join [COMMA] hs @ LF # join [COMMA] vs) = [map trim hs, map trim vs] \<and>
    csvToMarkdown (join [COMMA] hs @ LF # join [COMMA] vs) =
      join [LF]
        [headerRow [map trim hs, map trim vs], separatorRow [map trim hs, map trim vs],
         js ''| '' @
         join (js '' | '')
           (map (\<lambda>j. padEnd ((map trim vs @ replicate (columnCount [map trim hs, map trim vs] - length vs) []) ! j)
                   (columnWidths [map trim hs, map trim vs] ! j))
              [0..<columnCount [map trim hs, map trim vs]]) @
         js '' |''] \<and>
    (\<forall>j<length vs.
       padEnd ((map trim vs @ replicate (columnCount [map trim hs, map trim vs] - length vs) []) ! j)
           (columnWidths [map trim hs, map trim vs] ! j) =
         trim (vs ! j) @
         replicate (columnWidths [map trim hs, map trim vs] ! j - length (trim (vs ! j))) SPACE) \<and>
    (hs = [h] \<and> vs = [v] \<longrightarrow>
       csvToMarkdown (h @ LF # v) =
         js ''| '' @ trim h @
           replicate (max (max (length (trim h)) (length (trim v))) 3 - length (trim h)) SPACE @
           js '' |'' @ [LF] @
         js ''| '' @ replicate (max (max (length (trim h)) (length (trim v))) 3) DASH @
           js '' |'' @ [LF] @
         js ''| '' @ trim v @
           replicate (max (max (length (trim h)) (length (trim v))) 3 - length (trim v)) SPACE @
           js '' |'')"
proof -
  let ?csv = "join [COMMA] hs @ LF # join [COMMA] vs"
  let ?tbl = "[map trim hs, map trim vs]"
  let ?nrow = "map trim vs @ replicate (columnCount ?tbl - length vs) []"
  have parse: "parseCSV ?csv = ?tbl"
    using assms by (rule parseCSV_two_plain_lines)
  have "length (map trim vs) \<le> columnCount ?tbl"
    by (intro length_le_columnCount) simp
  then have len: "length ?nrow = columnCount ?tbl"
    by simp
  have "csvToMarkdown ?csv =
      join [LF] [headerRow ?tbl, separatorRow ?tbl, formatRow (columnWidths ?tbl) ?nrow]"
    using two_row_output [of "map trim hs" "map trim vs"] by (simp add: csvToMarkdown_def parse)
  then have out: "csvToMarkdown ?csv =
      join [LF] [headerRow ?tbl, separatorRow ?tbl,
        js ''| '' @
        join (js '' | '')
          (map (\<lambda>j. padEnd (?nrow ! j) (columnWidths ?tbl ! j)) [0..<columnCount ?tbl]) @
        js '' |'']"
    by (simp only: formatRow_slots [OF len])
  have slots: "\<forall>j<length vs. padEnd (?nrow ! j) (columnWidths ?tbl ! j) =
      trim (vs ! j) @ replicate (columnWidths ?tbl ! j - length (trim (vs ! j))) SPACE"
    by (simp add: padEnd_eq nth_append)
  have single: "hs = [h] \<and> vs = [v] \<longrightarrow>
       csvToMarkdown (h @ LF # v) =
         js ''| '' @ trim h @
           replicate (max (max (length (trim h)) (length (trim v))) 3 - length (trim h)) SPACE @
           js '' |'' @ [LF] @
         js ''| '' @ replicate (max (max (length (trim h)) (length (trim v))) 3) DASH @
           js '' |'' @ [LF] @
         js ''| '' @ trim v @
           replicate (max (max (length (trim h)) (length (trim v))) 3 - length (trim v)) SPACE @
           js '' |''"
  proof
    assume one: "hs = [h] \<and> vs = [v]"
    then have "parseCSV (h @ LF # v) = [[trim h], [trim v]]"
      using parse by simp
    then show "csvToMarkdown (h @ LF # v) =
         js ''| '' @ trim h @
           replicate (max (max (length (trim h)) (length (trim v))) 3 - length (trim h)) SPACE @
           js '' |'' @ [LF] @
         js ''| '' @ replicate (max (max (length (trim h)) (length (trim v))) 3) DASH @
           js '' |'' @ [LF] @
         js ''| '' @ trim v @
           replicate (max (max (length (trim h)) (length (trim v))) 3 - length (trim v)) SPACE @
           js '' |''"
      by (simp add: csvToMarkdown_def one_column_output padEnd_eq)
  qed
  from parse out slots single show ?thesis
    by (intro conjI)
qed

theorem C9_round_trip_witness:
  "parseCSV (js ''Key,Note'' @ LF # js '' x y ,z'') = [[js ''Key'', js ''Note''], [js ''x y'', js ''z'']] \<and>
   csvToMarkdown (js ''H'' @ LF # js '' x y '') =
     js ''| H   |'' @ [LF] @ js ''| --- |'' @ [LF] @ js ''| x y |''"
proof -
  let ?hs = "[js ''Key'', js ''Note'']" and ?vs = "[js '' x y '', js ''z'']"
  have t: "trim (js ''Key'') = js ''Key''" "trim (js ''Note'') = js ''Note''"
    "trim (js '' x y '') = js ''x y''" "trim (js ''z'') = js ''z''" "trim (js ''H'') = js ''H''"
    by code_simp+
  have ne: "js ''Key'' \<noteq> []" "js ''x y'' \<noteq> []" "js ''H'' \<noteq> []"
    by (simp_all add: js_def)
  have a1: "?hs \<noteq> []" and a4: "?vs \<noteq> []" by simp_all
  have a2: "\<forall>c\<in>set ?hs. plainText c" and a5: "\<forall>c\<in>set ?vs. plainText c"
    by (simp_all add: plainText_def js_def)
  have a3: "\<exists>c\<in>set ?hs. trim c \<noteq> []" and a6: "\<exists>c\<in>set ?vs. trim c \<noteq> []"
    using t ne by simp_all
  have p: "parseCSV (join [COMMA] ?hs @ LF # join [COMMA] ?vs) = [map trim ?hs, map trim ?vs]"
    using C9_round_trip [OF a1 a2 a3 a4 a5 a6] by blast
  have j: "join [COMMA] ?hs = js ''Key,Note''" "join [COMMA] ?vs = js '' x y ,z''"
    by (simp_all add: js_def)
  have "parseCSV (js ''Key,Note'' @ LF # js '' x y ,z'') = [map trim ?hs, map trim ?vs]"
    using p unfolding j .
  then have 1: "parseCSV (js ''Key,Note'' @ LF # js '' x y ,z'') =
      [[js ''Key'', js ''Note''], [js ''x y'', js ''z'']]"
    by (simp add: t)
  have b2: "\<forall>c\<in>set [js ''H'']. plainText c" and b5: "\<forall>c\<in>set [js '' x y '']. plainText c"
    by (simp_all add: plainText_def js_def)
  have b3: "\<exists>c\<in>set [js ''H'']. trim c \<noteq> []" and b6: "\<exists>c\<in>set [js '' x y '']. trim c \<noteq> []"
    using t ne by simp_all
  have "csvToMarkdown (js ''H'' @ LF # js '' x y '') =
         js ''| '' @ trim (js ''H'') @
           replicate (max (max (length (trim (js ''H''))) (length (trim (js '' x y '')))) 3 - length (trim (js ''H''))) SPACE @
           js '' |'' @ [LF] @
         js ''| '' @ replicate (max (max (length (trim (js ''H''))) (length (trim (js '' x y '')))) 3) DASH @
           js '' |'' @ [LF] @
         js ''| '' @ trim (js '' x y '') @
           replicate (max (max (length (trim (js ''H''))) (length (trim (js '' x y '')))) 3 - length (trim (js '' x y ''))) SPACE @
           js '' |''"
    using C9_round_trip [of "[js ''H'']" "[js '' x y '']" "js ''H''" "js '' x y ''", OF _ b2 b3 _ b5 b6]
    by blast
  then have 2: "csvToMarkdown (js ''H'' @ LF # js '' x y '') =
     js ''| H   |'' @ [LF] @ js ''| --- |'' @ [LF] @ js ''| x y |''"
    unfolding t by (simp add: js_def)
  from 1 2 show ?thesis by (rule conjI)
qed

end
